theory Spec2Isabelle
  imports Main "HOL-Library.Sublist"
begin

section \<open>Data model\<close>

text \<open>
  The records follow the type \<open>Package\<close> of \<open>src/scripts/index.ts\<close>. The registry's
  answer is decoded JSON, so the fields the code tests before use are optional here:
  \<open>publisher\<close> may be absent, an \<open>email\<close> may be absent, and \<open>maintainers\<close> may be
  absent or something that is not an array.
\<close>

record Person =
  username :: string
  email :: "string option"

record Links =
  npm :: string
  homepage :: string
  repository :: string
  bugs :: string

datatype maintainers_field = Missing | NotArray | Array "Person list"

record Package =
  name :: string
  version :: string
  description :: string
  keywords_list :: "string list"   \<comment> \<open>the field \<open>keywords\<close>\<close>
  date :: string
  links :: Links
  publisher :: "Person option"
  maintainers :: maintainers_field

text \<open>
  A JavaScript object has an identity: \<open>Set<Package>\<close> compares by reference. Every
  object decoded from a response body is a new one, so a package object is a reference
  paired with the record it holds.
\<close>

type_synonym ref = nat
type_synonym package_obj = "ref \<times> Package"

datatype error =
    RetriesOver          \<comment> \<open>\<open>Error("retries over")\<close>\<close>
  | MaxOver250           \<comment> \<open>\<open>Error("Max > 250 - the registry can't handle more than this.")\<close>\<close>
  | NoObjectsReturned    \<comment> \<open>\<open>Error("No objects returned.")\<close>\<close>
  | FetchFailed          \<comment> \<open>\<open>fetch\<close> rejected\<close>
  | JsonFailed           \<comment> \<open>\<open>request.json()\<close> rejected\<close>
  | UnhandledRejection   \<comment> \<open>the promise of \<open>fs.writeFile\<close> rejected and nothing handles it\<close>

section \<open>URLs\<close>

text \<open>Template literals print a non-negative integer in decimal.\<close>

fun show_nat :: "nat \<Rightarrow> string" where
  "show_nat n =
     (if n < 10 then [''0123456789'' ! n]
      else show_nat (n div 10) @ [''0123456789'' ! (n mod 10)])"

declare show_nat.simps [simp del]

definition buildURL :: "nat \<Rightarrow> string \<Rightarrow> nat \<Rightarrow> error + string" where
  "buildURL index query max_size =
     (if max_size > 250 then Inl MaxOver250
      else Inr (''https://registry.npmjs.com/-/v1/search?size='' @ show_nat max_size
                @ ''&popularity=1.0&quality=0.0&maintenance=0.0&text='' @ query
                @ ''&from='' @ show_nat index))"

definition pageURL :: "nat \<Rightarrow> string \<Rightarrow> error + string" where
  "pageURL page query = buildURL (page * 250) query 250"

section \<open>Email extractor\<close>

text \<open>JavaScript truthiness of a value that is a string or absent.\<close>

definition truthy :: "string option \<Rightarrow> bool" where
  "truthy v = (case v of None \<Rightarrow> False | Some s \<Rightarrow> s \<noteq> [])"

definition getEmailsFromPackage :: "Package \<Rightarrow> string list" where
  "getEmailsFromPackage pkg =
     (let emails = [];
          emails = (case publisher pkg of
                      None \<Rightarrow> emails
                    | Some p \<Rightarrow> if truthy (email p) then emails @ [the (email p)] else emails);
          emails = (case maintainers pkg of
                      Array ms \<Rightarrow> emails @ map the (filter truthy (map email ms))
                    | _ \<Rightarrow> emails)
      in emails)"

text \<open>
  The extractor in the words of the specification: the publisher's email if there is
  one, then each maintainer's email that is there, in the listed order.
\<close>

definition present :: "string option \<Rightarrow> string list" where
  "present v = (case v of Some (c # cs) \<Rightarrow> [c # cs] | _ \<Rightarrow> [])"

definition maintainer_list :: "maintainers_field \<Rightarrow> Person list" where
  "maintainer_list m = (case m of Array ms \<Rightarrow> ms | Missing \<Rightarrow> [] | NotArray \<Rightarrow> [])"

definition extractEmails_spec :: "Package \<Rightarrow> string list" where
  "extractEmails_spec pkg =
     (case publisher pkg of None \<Rightarrow> [] | Some p \<Rightarrow> present (email p))
     @ concat (map (\<lambda>m. present (email m)) (maintainer_list (maintainers pkg)))"

section \<open>Input files\<close>

text \<open>
  \<open>content.split(/\r?\n/)\<close>: a line ends at a line feed, together with the carriage
  return just before it if there is one. An empty content gives one empty line, and a
  content that ends with a line feed gives an empty last line.
\<close>

definition LF :: char where "LF = CHR 0x0A"
definition CR :: char where "CR = CHR 0x0D"

fun split_acc :: "string \<Rightarrow> string \<Rightarrow> string list" where
  "split_acc cur [] = [cur]"
| "split_acc cur [c] = (if c = LF then [cur, []] else [cur @ [c]])"
| "split_acc cur (c # d # cs) =
     (if c = LF then cur # split_acc [] (d # cs)
      else if c = CR \<and> d = LF then cur # split_acc [] cs
      else split_acc (cur @ [c]) (d # cs))"

definition split_LINE_PATTERN :: "string \<Rightarrow> string list" where
  "split_LINE_PATTERN content = split_acc [] content"

section \<open>The program state and its effects\<close>

datatype event =
    Fetch string              \<comment> \<open>\<open>fetch(url)\<close>\<close>
  | Wait nat                  \<comment> \<open>\<open>await wait(ms)\<close>\<close>
  | LogRetry error            \<comment> \<open>\<open>console.log("retry", err)\<close>\<close>
  | LogFetching string        \<comment> \<open>\<open>Fetching packages for query "..."...\<close>\<close>
  | Progress nat              \<comment> \<open>the progress bar or the line \<open>Completed n of 40 requests.\<close>\<close>
  | LogSentCount nat          \<comment> \<open>\<open>n emails sent\<close>\<close>
  | LogSummary nat nat nat    \<comment> \<open>the last line: new emails, queries, unique packages\<close>

text \<open>
  What the registry does is not the program's: a fetcher tells, for the number of
  requests made so far and the URL, whether \<open>fetch\<close> rejects, and otherwise whether the
  body decodes and what its \<open>objects\<close> field holds (\<open>None\<close> when there is none).
\<close>

datatype response = Unparsable | Json "Package list option"
datatype fetch_outcome = Rejected | Responded response

type_synonym fetcher = "nat \<Rightarrow> string \<Rightarrow> fetch_outcome"

text \<open>
  Nor is what the file system does: a writer tells, for the number of writes called so
  far, the name of the file and the data, whether the write succeeds.
\<close>

type_synonym writer = "nat \<Rightarrow> string \<Rightarrow> string \<Rightarrow> bool"

text \<open>
  The module's variables \<open>allPackagesSet\<close> and \<open>newEmailsSet\<close>, the requests and
  objects counted so far, what was logged, and the calls of \<open>fs.writeFile\<close>: the file's
  name under \<open>data/out\<close> and the list \<open>newEmails\<close> whose \<open>join("\n")\<close> is its data
  (\<open>file_data\<close> below). The program does not wait for a write, so \<open>files\<close> records
  the calls, in their order; when a query occurs twice in \<open>queries.txt\<close>, both calls name
  the same file. \<open>write_rejected\<close> says that a write has failed: its promise is rejected
  and the program has no handler for it.
\<close>

record state =
  attempts :: nat
  next_ref :: ref
  trace :: "event list"
  allPackagesSet :: "ref set"
  newEmailsSet :: "string set"
  files :: "(string \<times> string list) list"
  write_rejected :: bool

definition initial_state :: state where
  "initial_state =
     \<lparr>attempts = 0, next_ref = 0, trace = [], allPackagesSet = {}, newEmailsSet = {},
      files = [], write_rejected = False\<rparr>"

definition log :: "event \<Rightarrow> state \<Rightarrow> state" where
  "log ev s = s\<lparr>trace := trace s @ [ev]\<rparr>"

fun join :: "string \<Rightarrow> string list \<Rightarrow> string" where
  "join sep [] = []"
| "join sep [x] = x"
| "join sep (x # y # ys) = x @ sep @ join sep (y # ys)"

definition file_data :: "string list \<Rightarrow> string" where
  "file_data es = join [LF] es"

section \<open>Retry wrapper\<close>

text \<open>The body of the \<open>try\<close> block of \<open>getPage\<close>: the error is the one \<open>catch\<close> receives.\<close>

definition try_getPage ::
  "fetcher \<Rightarrow> nat \<Rightarrow> string \<Rightarrow> state \<Rightarrow> (error + package_obj list) \<times> state" where
  "try_getPage fetch page query s =
     (case pageURL page query of
        Inl err \<Rightarrow> (Inl err, s)
      | Inr url \<Rightarrow>
          (let s1 = log (Fetch url) (s\<lparr>attempts := attempts s + 1\<rparr>) in
           case fetch (attempts s) url of
             Rejected \<Rightarrow> (Inl FetchFailed, s1)
           | Responded r \<Rightarrow>
               (let s2 = log (Wait 800) s1 in
                case r of
                  Unparsable \<Rightarrow> (Inl JsonFailed, s2)
                | Json None \<Rightarrow> (Inl NoObjectsReturned, s2)
                | Json (Some pkgs) \<Rightarrow>
                    (Inr (zip [next_ref s2 ..< next_ref s2 + length pkgs] pkgs),
                     s2\<lparr>next_ref := next_ref s2 + length pkgs\<rparr>))))"

text \<open>
  \<open>retries\<close> is a count: the one call site leaves it at its default 2, and the function
  calls itself with \<open>retries - 1\<close> only after it has found \<open>retries\<close> not to be 0.
\<close>

fun getPage ::
  "fetcher \<Rightarrow> nat \<Rightarrow> string \<Rightarrow> nat \<Rightarrow> state \<Rightarrow> (error + package_obj list) \<times> state" where
  "getPage fetch page query retries s =
     (if retries = 0 then (Inl RetriesOver, s)
      else
        (case try_getPage fetch page query s of
           (Inr pkgs, s') \<Rightarrow> (Inr pkgs, s')
         | (Inl err, s') \<Rightarrow>
             getPage fetch page query (retries - 1) (log (LogRetry err) (log (Wait 5000) s'))))"

declare getPage.simps [simp del]

section \<open>Page walker\<close>

definition PAGES_PER_QUERY :: nat where
  "PAGES_PER_QUERY = 40"

function getPackages_loop ::
  "fetcher \<Rightarrow> string \<Rightarrow> nat \<Rightarrow> nat \<Rightarrow> package_obj list \<Rightarrow> state
     \<Rightarrow> (error + package_obj list) \<times> state" where
  "getPackages_loop fetch query i completed packages s =
     (if i < PAGES_PER_QUERY then
        (case getPage fetch i query 2 s of
           (Inl err, s') \<Rightarrow> (Inl err, s')
         | (Inr fetchedPackages, s') \<Rightarrow>
             getPackages_loop fetch query (i + 1) (completed + 1) (packages @ fetchedPackages)
               (log (Progress (completed + 1)) s'))
      else (Inr packages, s))"
  by pat_completeness auto
termination
  by (relation "measure (\<lambda>(fetch, query, i, completed, packages, s). PAGES_PER_QUERY - i)") auto

declare getPackages_loop.simps [simp del]

definition getPackages ::
  "fetcher \<Rightarrow> string \<Rightarrow> state \<Rightarrow> (error + package_obj list) \<times> state" where
  "getPackages fetch query s = getPackages_loop fetch query 0 0 [] (log (LogFetching query) s)"

section \<open>Deduplicator\<close>

text \<open>\<open>Array.prototype.indexOf\<close>: the first index of the value, or -1.\<close>

fun indexOf :: "'a list \<Rightarrow> 'a \<Rightarrow> int" where
  "indexOf [] x = - 1"
| "indexOf (y # ys) x =
     (if y = x then 0 else (let k = indexOf ys x in if k = - 1 then - 1 else k + 1))"

text \<open>\<open>Array.prototype.filter\<close> with a callback that takes the element, its index and the array.\<close>

definition filter_indexed :: "('a \<Rightarrow> nat \<Rightarrow> 'a list \<Rightarrow> bool) \<Rightarrow> 'a list \<Rightarrow> 'a list" where
  "filter_indexed f xs = map fst (filter (\<lambda>(x, i). f x i xs) (zip xs [0..<length xs]))"

definition flatMap :: "('a \<Rightarrow> 'b list) \<Rightarrow> 'a list \<Rightarrow> 'b list" where
  "flatMap f xs = concat (map f xs)"

definition deduplicate :: "string set \<Rightarrow> string set \<Rightarrow> string list \<Rightarrow> string list" where
  "deduplicate sentEmailsSet newSet emails =
     filter_indexed
       (\<lambda>email i unfiltered.
          indexOf unfiltered email = int i \<and> email \<notin> sentEmailsSet \<and> email \<notin> newSet)
       emails"

definition newEmails :: "string set \<Rightarrow> string set \<Rightarrow> package_obj list \<Rightarrow> string list" where
  "newEmails sentEmailsSet newSet packages =
     deduplicate sentEmailsSet newSet (flatMap (\<lambda>pkg. getEmailsFromPackage (snd pkg)) packages)"

section \<open>The run\<close>

definition add_packages :: "package_obj list \<Rightarrow> state \<Rightarrow> state" where
  "add_packages packages s =
     s\<lparr>allPackagesSet := fold (\<lambda>pkg S. insert (fst pkg) S) packages (allPackagesSet s)\<rparr>"

text \<open>
  \<open>fs.writeFile(path, newEmails.join("\n"))\<close>, not awaited: the call is recorded, and
  when the write fails its rejection is left pending.
\<close>

definition writeFile :: "writer \<Rightarrow> string \<Rightarrow> string list \<Rightarrow> state \<Rightarrow> state" where
  "writeFile write file es s =
     s\<lparr>files := files s @ [(file, es)],
       write_rejected :=
         (if write (length (files s)) file (file_data es) then write_rejected s else True)\<rparr>"

definition add_emails :: "string list \<Rightarrow> state \<Rightarrow> state" where
  "add_emails es s = s\<lparr>newEmailsSet := fold insert es (newEmailsSet s)\<rparr>"

text \<open>The body of the loop over the queries; \<open>Some err\<close> is an error that leaves the program.\<close>

definition process_query ::
  "fetcher \<Rightarrow> writer \<Rightarrow> string set \<Rightarrow> string \<Rightarrow> state \<Rightarrow> error option \<times> state" where
  "process_query fetch write sentEmailsSet query s =
     (case getPackages fetch query s of
        (Inl err, s') \<Rightarrow> (Some err, s')
      | (Inr packages, s') \<Rightarrow>
          (let s1 = add_packages packages s';
               es = newEmails sentEmailsSet (newEmailsSet s1) packages;
               s2 = writeFile write (query @ ''_new_emails.txt'') es s1;
               s3 = add_emails es s2
           in (None, s3)))"

text \<open>
  Nothing handles a rejected promise, so Deno reports the uncaught error and ends the
  process as soon as the rejection is delivered. A write fails at once (the file cannot
  be opened), while the program goes on without waiting; the model delivers the
  rejection at the next point where the program waits: the first \<open>await fetch\<close> of the
  next query, whose walk has been announced and whose first request has been sent, or
  the end of the module when the query was the last.
\<close>

definition interrupted :: "string \<Rightarrow> state \<Rightarrow> state" where
  "interrupted query s =
     (let s1 = log (LogFetching query) s in
      case pageURL 0 query of
        Inl err \<Rightarrow> s1
      | Inr url \<Rightarrow> log (Fetch url) (s1\<lparr>attempts := attempts s1 + 1\<rparr>))"

fun query_loop ::
  "fetcher \<Rightarrow> writer \<Rightarrow> string set \<Rightarrow> string list \<Rightarrow> state \<Rightarrow> error option \<times> state" where
  "query_loop fetch write sentEmailsSet [] s = (None, s)"
| "query_loop fetch write sentEmailsSet (query # queries) s =
     (if write_rejected s then (Some UnhandledRejection, interrupted query s)
      else
        (case process_query fetch write sentEmailsSet query s of
           (Some err, s') \<Rightarrow> (Some err, s')
         | (None, s') \<Rightarrow> query_loop fetch write sentEmailsSet queries s'))"

text \<open>
  The module from top to bottom, given the contents of \<open>data/in/queries.txt\<close> and of
  \<open>data/in/sent_emails.txt\<close>.
\<close>

definition main :: "fetcher \<Rightarrow> writer \<Rightarrow> string \<Rightarrow> string \<Rightarrow> error option \<times> state" where
  "main fetch write queries_txt sent_emails_txt =
     (let queries = split_LINE_PATTERN queries_txt;
          sentEmails = split_LINE_PATTERN sent_emails_txt;
          s0 = log (LogSentCount (length sentEmails)) initial_state;
          sentEmailsSet = set sentEmails
      in case query_loop fetch write sentEmailsSet queries s0 of
           (Some err, s) \<Rightarrow> (Some err, s)
         | (None, s) \<Rightarrow>
             (if write_rejected s then Some UnhandledRejection else None,
              log (LogSummary (card (newEmailsSet s)) (length queries) (card (allPackagesSet s)))
                s))"

section \<open>Reference descriptions and sample inputs\<close>

text \<open>An attempt fails when \<open>fetch\<close> rejects, the body does not decode, or it has no \<open>objects\<close>.\<close>

definition fails :: "fetch_outcome \<Rightarrow> bool" where
  "fails out =
     (case out of
        Rejected \<Rightarrow> True
      | Responded Unparsable \<Rightarrow> True
      | Responded (Json None) \<Rightarrow> True
      | Responded (Json (Some pkgs)) \<Rightarrow> False)"

definition page_url :: "nat \<Rightarrow> string \<Rightarrow> string" where
  "page_url page query =
     ''https://registry.npmjs.com/-/v1/search'' @ ''?size=250''
     @ ''&popularity=1.0&quality=0.0&maintenance=0.0'' @ ''&text='' @ query
     @ ''&from='' @ show_nat (page * 250)"

text \<open>
  The page walk, page by page: the state in which the fetch of page \<open>i\<close> starts is the
  one the fetch of page \<open>i - 1\<close> left, with the progress report added.
\<close>

fun state_before :: "fetcher \<Rightarrow> string \<Rightarrow> state \<Rightarrow> nat \<Rightarrow> state" where
  "state_before fetch query s 0 = log (LogFetching query) s"
| "state_before fetch query s (Suc i) =
     log (Progress (Suc i)) (snd (getPage fetch i query 2 (state_before fetch query s i)))"

definition page_result :: "fetcher \<Rightarrow> string \<Rightarrow> state \<Rightarrow> nat \<Rightarrow> error + package_obj list" where
  "page_result fetch query s i = fst (getPage fetch i query 2 (state_before fetch query s i))"

definition packages_of :: "error + package_obj list \<Rightarrow> package_obj list" where
  "packages_of r = (case r of Inl err \<Rightarrow> [] | Inr pkgs \<Rightarrow> pkgs)"

text \<open>
  A registry that answers every request, the body decided by the URL, and the files a
  run against it writes: query after query, the emails of the forty pages, deduplicated
  against the sent emails and the emails of the queries before.
\<close>

definition registry :: "(string \<Rightarrow> Package list) \<Rightarrow> fetcher" where
  "registry body n url = Responded (Json (Some (body url)))"

definition query_records :: "(string \<Rightarrow> Package list) \<Rightarrow> string \<Rightarrow> Package list" where
  "query_records body query = concat (map (\<lambda>i. body (page_url i query)) [0..<PAGES_PER_QUERY])"

fun registry_files ::
  "(string \<Rightarrow> Package list) \<Rightarrow> string set \<Rightarrow> string set \<Rightarrow> string list
     \<Rightarrow> (string \<times> string list) list" where
  "registry_files body sentEmailsSet newSet [] = []"
| "registry_files body sentEmailsSet newSet (query # queries) =
     (let es = deduplicate sentEmailsSet newSet
                 (flatMap getEmailsFromPackage (query_records body query))
      in (query @ ''_new_emails.txt'', es)
         # registry_files body sentEmailsSet (newSet \<union> set es) queries)"

text \<open>
  What holds of the files written so far, at every moment of a run: their emails are in
  the running set, none of them is a sent email or empty, and no two files share one.
\<close>

definition written_ok :: "string set \<Rightarrow> state \<Rightarrow> bool" where
  "written_ok sentEmailsSet s \<longleftrightarrow>
     (\<forall>file \<in> set (files s).
        set (snd file) \<subseteq> newEmailsSet s \<and> set (snd file) \<inter> sentEmailsSet = {} \<and>
        [] \<notin> set (snd file)) \<and>
     (\<forall>i j. i < j \<and> j < length (files s) \<longrightarrow>
        set (snd (files s ! i)) \<inter> set (snd (files s ! j)) = {})"

text \<open>
  What holds of the writes called so far: only the last one can have failed, and when
  it has, its rejection is pending.
\<close>

definition write_log_ok :: "writer \<Rightarrow> state \<Rightarrow> bool" where
  "write_log_ok write s \<longleftrightarrow>
     (\<forall>k<length (files s).
        \<not> write k (fst (files s ! k)) (file_data (snd (files s ! k))) \<longrightarrow>
        write_rejected s \<and> Suc k = length (files s))"

text \<open>Sample fetchers, writers and packages.\<close>

definition writes_all :: writer where
  "writes_all n file data = True"

definition fails_first_write :: writer where
  "fails_first_write n file data = (n \<noteq> 0)"

definition always_fails :: fetcher where
  "always_fails n url = Rejected"

definition fails_then_succeeds :: "nat \<Rightarrow> Package list \<Rightarrow> fetcher" where
  "fails_then_succeeds k pkgs n url =
     (if n < k then Rejected else Responded (Json (Some pkgs)))"

definition answers_then_fails :: "nat \<Rightarrow> fetcher" where
  "answers_then_fails k n url = (if n < k then Responded (Json (Some [])) else Rejected)"

definition sample_package :: "string \<Rightarrow> string option \<Rightarrow> string option list \<Rightarrow> Package" where
  "sample_package n pub ms =
     \<lparr>name = n, version = ''1.0.0'', description = [], keywords_list = [], date = [],
      links = \<lparr>npm = [], homepage = [], repository = [], bugs = []\<rparr>,
      publisher = Some \<lparr>username = ''p'', email = pub\<rparr>,
      maintainers = Array (map (\<lambda>e. \<lparr>username = ''m'', email = e\<rparr>) ms)\<rparr>"

definition sample_registry :: "string \<Rightarrow> Package list" where
  "sample_registry url =
     (if url = page_url 0 ''foo'' then
        [sample_package ''alpha'' (Some ''a@x.com'') [Some ''c@x.com'', Some [], None, Some ''c@x.com'']]
      else if url = page_url 0 ''bar'' then
        [sample_package ''alpha'' (Some ''a@x.com'') [Some ''c@x.com'', Some [], None, Some ''c@x.com''],
         sample_package ''beta'' (Some ''c@x.com'') [Some ''d@x.com'']]
      else [])"

text \<open>A registry whose one package has a publisher email that holds two line feeds.\<close>

definition sample_registry_nl :: "string \<Rightarrow> Package list" where
  "sample_registry_nl url =
     (if url = page_url 0 ''foo''
      then [sample_package ''gamma'' (Some (''x@x.com'' @ [LF, LF] @ ''a@x.com'')) []]
      else [])"

text \<open>The two input files of the sample run: two queries, and one sent email with a line end.\<close>

definition sample_queries_txt :: string where
  "sample_queries_txt = ''foo'' @ [LF] @ ''bar''"

definition sample_sent_emails_txt :: string where
  "sample_sent_emails_txt = ''a@x.com'' @ [LF]"

section \<open>Properties\<close>

lemma present_truthy: "present v = (if truthy v then [the v] else [])"
  by (auto simp: present_def truthy_def split: option.splits list.splits)

lemma map_the_filter_truthy:
  "map the (filter truthy (map email ms)) = concat (map (\<lambda>m. present (email m)) ms)"
  by (induction ms) (simp_all add: present_truthy)

text \<open>
  C4. For every package, the email extractor returns the publisher's email first (only
  when it is present and non-empty), then the maintainers' emails in their listed order,
  leaving out every maintainer whose email is empty or absent; a maintainers field that
  is absent or not an array counts as empty.
\<close>

theorem getEmailsFromPackage_spec: "getEmailsFromPackage pkg = extractEmails_spec pkg"
  by (auto simp: getEmailsFromPackage_def extractEmails_spec_def maintainer_list_def
      present_truthy map_the_filter_truthy
      split: option.splits maintainers_field.splits)

subsection \<open>URLs\<close>

lemma show_nat_250: "show_nat 250 = ''250''"
  by (simp add: show_nat.simps)

lemma pageURL_Inr: "pageURL page query = Inr (page_url page query)"
  by (simp add: pageURL_def buildURL_def page_url_def show_nat_250)

text \<open>
  C6. For every zero-based page index \<open>p\<close> and query string \<open>q\<close>, the URL fetched for that
  page, built with the page size 250, is the base followed by
  \<open>?size=250&popularity=1.0&quality=0.0&maintenance=0.0&text=q&from=\<close> and \<open>p * 250\<close> in
  decimal; and building a URL with a page size above 250 fails.
\<close>

theorem pageURL_form:
  "pageURL p q =
     Inr (''https://registry.npmjs.com/-/v1/search''
          @ ''?size=250&popularity=1.0&quality=0.0&maintenance=0.0&text='' @ q
          @ ''&from='' @ show_nat (p * 250)) \<and>
   (250 < max_size \<longrightarrow> buildURL index q max_size = Inl MaxOver250)"
  by (simp add: pageURL_def buildURL_def show_nat_250)

theorem pageURL_form_witness:
  "(250::nat) < 251 \<and> buildURL 0 ''foo'' 251 = Inl MaxOver250 \<and>
   pageURL 39 ''foo'' =
     Inr ''https://registry.npmjs.com/-/v1/search?size=250&popularity=1.0&quality=0.0&maintenance=0.0&text=foo&from=9750''"
  using pageURL_form [of 39 "''foo''" 251 0]
  by (simp add: show_nat.simps)

subsection \<open>Retry wrapper\<close>

lemma try_getPage_fails:
  "fails (fetch (attempts s) (page_url page query)) \<Longrightarrow>
   \<exists>err s'. try_getPage fetch page query s = (Inl err, s') \<and> attempts s' = attempts s + 1
     \<and> next_ref s' = next_ref s"
  by (auto simp: try_getPage_def pageURL_Inr fails_def log_def Let_def
      split: fetch_outcome.splits response.splits option.splits)

lemma try_getPage_succeeds:
  "fetch (attempts s) (page_url page query) = Responded (Json (Some pkgs)) \<Longrightarrow>
   try_getPage fetch page query s =
     (Inr (zip [next_ref s ..< next_ref s + length pkgs] pkgs),
      s\<lparr>attempts := attempts s + 1,
        trace := trace s @ [Fetch (page_url page query), Wait 800],
        next_ref := next_ref s + length pkgs\<rparr>)"
  by (simp add: try_getPage_def pageURL_Inr log_def Let_def)

text \<open>When each of the \<open>N\<close> attempts fails, the budget is used up after exactly \<open>N\<close> requests.\<close>

lemma getPage_exhausts:
  "(\<And>j. j < N \<Longrightarrow> fails (fetch (attempts s + j) (page_url page query))) \<Longrightarrow>
   fst (getPage fetch page query N s) = Inl RetriesOver \<and>
   attempts (snd (getPage fetch page query N s)) = attempts s + N"
proof (induction N arbitrary: s)
  case 0
  show ?case by (simp add: getPage.simps)
next
  case (Suc N)
  from Suc.prems [of 0] have "fails (fetch (attempts s) (page_url page query))" by simp
  from try_getPage_fails [of fetch s page query, OF this] obtain err s'
    where t: "try_getPage fetch page query s = (Inl err, s')" and a: "attempts s' = attempts s + 1"
    by blast
  let ?s = "log (LogRetry err) (log (Wait 5000) s')"
  have a': "attempts ?s = attempts s + 1" using a by (simp add: log_def)
  have "\<And>j. j < N \<Longrightarrow> fails (fetch (attempts ?s + j) (page_url page query))"
    using Suc.prems [of "Suc _"] a' by simp
  from Suc.IH [of ?s, OF this] show ?case
    using t a' by (simp add: getPage.simps [of _ _ _ "Suc N"])
qed

text \<open>When the first \<open>k\<close> attempts fail and the next one succeeds, a budget above \<open>k\<close> is enough.\<close>

lemma getPage_recovers:
  "(\<And>j. j < k \<Longrightarrow> fails (fetch (attempts s + j) (page_url page query))) \<Longrightarrow>
   fetch (attempts s + k) (page_url page query) = Responded (Json (Some pkgs)) \<Longrightarrow>
   k < N \<Longrightarrow>
   fst (getPage fetch page query N s) = Inr (zip [next_ref s ..< next_ref s + length pkgs] pkgs) \<and>
   attempts (snd (getPage fetch page query N s)) = attempts s + k + 1 \<and>
   next_ref (snd (getPage fetch page query N s)) = next_ref s + length pkgs"
proof (induction k arbitrary: s N)
  case 0
  then obtain M where N: "N = Suc M" by (cases N) auto
  from 0 show ?case
    by (simp add: N getPage.simps [of _ _ _ "Suc M"] try_getPage_succeeds)
next
  case (Suc k)
  then obtain M where N: "N = Suc M" and M: "k < M" by (cases N) auto
  from Suc.prems(1) [of 0] have "fails (fetch (attempts s) (page_url page query))" by simp
  from try_getPage_fails [of fetch s page query, OF this] obtain err s'
    where t: "try_getPage fetch page query s = (Inl err, s')" and a: "attempts s' = attempts s + 1"
      and r: "next_ref s' = next_ref s"
    by blast
  let ?s = "log (LogRetry err) (log (Wait 5000) s')"
  have a': "attempts ?s = attempts s + 1" and r': "next_ref ?s = next_ref s"
    using a r by (simp_all add: log_def)
  have 1: "\<And>j. j < k \<Longrightarrow> fails (fetch (attempts ?s + j) (page_url page query))"
    using Suc.prems(1) [of "Suc _"] a' by simp
  have 2: "fetch (attempts ?s + k) (page_url page query) = Responded (Json (Some pkgs))"
    using Suc.prems(2) a' by simp
  from Suc.IH [of ?s M, OF 1 2 M] show ?case
    using t a' r' by (simp add: N getPage.simps [of _ _ _ "Suc M"])
qed

text \<open>
  C3, as the claim states it, fails: with the budget 2 a fetcher that always fails is
  asked twice, not three times, and with a fetcher that fails twice and then succeeds
  the wrapper gives up after the second failure and never makes the third request.
\<close>

theorem getPage_retry_counterexample:
  "attempts (snd (getPage always_fails 0 ''foo'' 2 initial_state)) = 2 \<and>
   attempts (snd (getPage always_fails 0 ''foo'' 2 initial_state)) \<noteq> 2 + 1 \<and>
   fst (getPage (fails_then_succeeds 2 [sample_package ''x'' (Some ''a@x.com'') []]) 0 ''foo'' 2
          initial_state) = Inl RetriesOver \<and>
   attempts (snd (getPage (fails_then_succeeds 2 [sample_package ''x'' (Some ''a@x.com'') []]) 0
          ''foo'' 2 initial_state)) = 2"
  by (simp add: getPage.simps try_getPage_def pageURL_Inr always_fails_def
      fails_then_succeeds_def initial_state_def log_def)

text \<open>
  C3, amended. The budget \<open>N\<close> of the retry wrapper counts the attempts, the first one
  included. When the fetch fails at each of the \<open>N\<close> attempts (so also when it always
  fails), exactly \<open>N\<close> requests are made and then the error \<open>retries over\<close> leaves the
  wrapper. When the fetch fails \<open>k\<close> times and then succeeds, a budget \<open>N > k\<close> returns
  the successful result after exactly \<open>k + 1\<close> requests: a fetcher that fails twice and
  then succeeds needs the budget 3.
\<close>

theorem getPage_attempts:
  "((\<forall>j<N. fails (fetch (attempts s + j) (page_url page query))) \<longrightarrow>
      fst (getPage fetch page query N s) = Inl RetriesOver \<and>
      attempts (snd (getPage fetch page query N s)) = attempts s + N) \<and>
   ((\<forall>j<k. fails (fetch (attempts s + j) (page_url page query))) \<and>
    fetch (attempts s + k) (page_url page query) = Responded (Json (Some pkgs)) \<and> k < N \<longrightarrow>
      fst (getPage fetch page query N s)
        = Inr (zip [next_ref s ..< next_ref s + length pkgs] pkgs) \<and>
      attempts (snd (getPage fetch page query N s)) = attempts s + k + 1)"
  using getPage_exhausts [of N fetch s page query] getPage_recovers [of k fetch s page query pkgs N]
  by blast

theorem getPage_attempts_witness:
  "fails (always_fails (attempts initial_state + 0) (page_url 0 ''foo'')) \<and>
   fails (always_fails (attempts initial_state + 1) (page_url 0 ''foo'')) \<and>
   fst (getPage always_fails 0 ''foo'' 2 initial_state) = Inl RetriesOver \<and>
   attempts (snd (getPage always_fails 0 ''foo'' 2 initial_state)) = 2 \<and>
   fails (fails_then_succeeds 2 [sample_package ''x'' (Some ''a@x.com'') []]
            (attempts initial_state + 0) (page_url 0 ''foo'')) \<and>
   fails (fails_then_succeeds 2 [sample_package ''x'' (Some ''a@x.com'') []]
            (attempts initial_state + 1) (page_url 0 ''foo'')) \<and>
   fails_then_succeeds 2 [sample_package ''x'' (Some ''a@x.com'') []]
     (attempts initial_state + 2) (page_url 0 ''foo'')
     = Responded (Json (Some [sample_package ''x'' (Some ''a@x.com'') []])) \<and>
   fst (getPage (fails_then_succeeds 2 [sample_package ''x'' (Some ''a@x.com'') []]) 0 ''foo'' 3
          initial_state) = Inr [(0, sample_package ''x'' (Some ''a@x.com'') [])] \<and>
   attempts (snd (getPage (fails_then_succeeds 2 [sample_package ''x'' (Some ''a@x.com'') []]) 0
          ''foo'' 3 initial_state)) = 3"
  using getPage_attempts [of 2 always_fails initial_state 0 "''foo''" 0 "[]"]
    getPage_attempts [of 3 "fails_then_succeeds 2 [sample_package ''x'' (Some ''a@x.com'') []]"
      initial_state 0 "''foo''" 2 "[sample_package ''x'' (Some ''a@x.com'') []]"]
  by (simp add: always_fails_def fails_then_succeeds_def fails_def initial_state_def)

subsection \<open>Deduplicator\<close>


lemma indexOf_nth: "indexOf xs x = int i \<Longrightarrow> i < length xs \<and> xs ! i = x"
proof (induction xs arbitrary: i)
  case Nil
  then show ?case by simp
next
  case (Cons y ys)
  show ?case
  proof (cases "y = x")
    case True
    with Cons.prems show ?thesis by simp
  next
    case False
    with Cons.prems have k: "indexOf ys x \<noteq> - 1" and "indexOf ys x + 1 = int i"
      by (auto simp: Let_def split: if_splits)
    then obtain j where i: "i = Suc j" and "indexOf ys x = int j"
      by (cases i) auto
    with Cons.IH [of j] show ?thesis by simp
  qed
qed

lemma indexOf_member: "x \<in> set xs \<Longrightarrow> \<exists>i. indexOf xs x = int i"
proof (induction xs)
  case Nil
  then show ?case by simp
next
  case (Cons y ys)
  show ?case
  proof (cases "y = x")
    case True
    then have "indexOf (y # ys) x = int 0" by simp
    then show ?thesis by blast
  next
    case False
    with Cons obtain j where "indexOf ys x = int j" by auto
    with False have "indexOf (y # ys) x = int (Suc j)" by (simp add: Let_def)
    then show ?thesis by blast
  qed
qed

lemma set_filter_indexed:
  "set (filter_indexed f xs) = {x. \<exists>i<length xs. xs ! i = x \<and> f x i xs}"
  by (force simp: filter_indexed_def in_set_zip image_iff)

lemma set_deduplicate: "set (deduplicate sent new xs) = set xs - sent - new"
proof
  show "set (deduplicate sent new xs) \<subseteq> set xs - sent - new"
    by (auto simp: deduplicate_def set_filter_indexed)
next
  show "set xs - sent - new \<subseteq> set (deduplicate sent new xs)"
  proof
    fix x assume x: "x \<in> set xs - sent - new"
    then obtain i where i: "indexOf xs x = int i" using indexOf_member [of x xs] by auto
    with indexOf_nth [OF i] x show "x \<in> set (deduplicate sent new xs)"
      by (auto simp: deduplicate_def set_filter_indexed)
  qed
qed

lemma fold_insert_set: "fold insert xs A = set xs \<union> A"
  by (induction xs arbitrary: A) auto

lemma newEmailsSet_add_emails: "newEmailsSet (add_emails es s) = newEmailsSet s \<union> set es"
  by (auto simp: add_emails_def fold_insert_set)

text \<open>
  C5. The Deduplicator is the filter together with the loop that adds what it retained to
  the running \<open>newEmailsSet\<close>. Run a second time on the same extracted sequence, with
  the same set of sent emails and the same running set (which by then holds what the
  first run retained), it retains nothing.
\<close>

theorem deduplicate_twice:
  "deduplicate sentEmailsSet
     (newEmailsSet (add_emails (deduplicate sentEmailsSet (newEmailsSet s) emails) s)) emails = []"
proof -
  have "set (deduplicate sentEmailsSet
     (newEmailsSet (add_emails (deduplicate sentEmailsSet (newEmailsSet s) emails) s)) emails) = {}"
    by (auto simp: set_deduplicate newEmailsSet_add_emails)
  then show ?thesis by simp
qed

text \<open>
  The example of the specification: one sent email, one email twice; the data of the
  file is the one email that is left.
\<close>

lemma file_data_example:
  "file_data (deduplicate {''a@x.com''} {} [''a@x.com'', ''b@x.com'', ''b@x.com'']) = ''b@x.com''"
  by (simp add: file_data_def deduplicate_def filter_indexed_def)

lemma deduplicate_example: "deduplicate {''a@x.com''} {} [''a@x.com'', ''b@x.com'', ''b@x.com''] = [''b@x.com'']"
  by (simp add: deduplicate_def filter_indexed_def)

subsection \<open>What the page fetches leave untouched, and the objects they create\<close>


lemma log_simps [simp]:
  "attempts (log ev s) = attempts s" "next_ref (log ev s) = next_ref s"
  "files (log ev s) = files s" "newEmailsSet (log ev s) = newEmailsSet s"
  "allPackagesSet (log ev s) = allPackagesSet s" "trace (log ev s) = trace s @ [ev]"
  "write_rejected (log ev s) = write_rejected s"
  by (simp_all add: log_def)

lemma upt_split: "a \<le> b \<Longrightarrow> b \<le> c \<Longrightarrow> [a..<b] @ [b..<c] = [a..<c]"
  using upt_add_eq_append [of a b "c - b"] by simp

lemma try_getPage_frame:
  "files (snd (try_getPage fetch page query s)) = files s \<and>
   newEmailsSet (snd (try_getPage fetch page query s)) = newEmailsSet s \<and>
   allPackagesSet (snd (try_getPage fetch page query s)) = allPackagesSet s \<and>
   write_rejected (snd (try_getPage fetch page query s)) = write_rejected s"
  by (simp add: try_getPage_def log_def Let_def
      split: sum.splits fetch_outcome.splits response.splits option.splits)

lemma try_getPage_refs:
  "try_getPage fetch page query s = (r, s') \<Longrightarrow>
   (case r of Inl err \<Rightarrow> next_ref s' = next_ref s
            | Inr pkgs \<Rightarrow> next_ref s \<le> next_ref s' \<and> map fst pkgs = [next_ref s ..< next_ref s'])"
  by (auto simp: try_getPage_def log_def Let_def
      split: sum.splits fetch_outcome.splits response.splits option.splits)

lemma getPage_frame:
  "files (snd (getPage fetch page query N s)) = files s \<and>
   newEmailsSet (snd (getPage fetch page query N s)) = newEmailsSet s \<and>
   allPackagesSet (snd (getPage fetch page query N s)) = allPackagesSet s \<and>
   write_rejected (snd (getPage fetch page query N s)) = write_rejected s"
proof (induction N arbitrary: s)
  case 0
  show ?case by (simp add: getPage.simps)
next
  case (Suc N)
  obtain r s' where t: "try_getPage fetch page query s = (r, s')" by (cases "try_getPage fetch page query s")
  with try_getPage_frame [of fetch page query s]
  have f: "files s' = files s" "newEmailsSet s' = newEmailsSet s" "allPackagesSet s' = allPackagesSet s"
      "write_rejected s' = write_rejected s"
    by simp_all
  show ?case
  proof (cases r)
    case (Inl err)
    with t f Suc.IH [of "log (LogRetry err) (log (Wait 5000) s')"] show ?thesis
      by (simp add: getPage.simps [of _ _ _ "Suc N"] log_def)
  next
    case (Inr pkgs)
    with t f show ?thesis by (simp add: getPage.simps [of _ _ _ "Suc N"])
  qed
qed

lemma getPage_refs:
  "getPage fetch page query N s = (r, s') \<Longrightarrow>
   (case r of Inl err \<Rightarrow> err = RetriesOver \<and> next_ref s' = next_ref s
            | Inr pkgs \<Rightarrow> next_ref s \<le> next_ref s' \<and> map fst pkgs = [next_ref s ..< next_ref s'])"
proof (induction N arbitrary: s)
  case 0
  then show ?case by (auto simp: getPage.simps)
next
  case (Suc N)
  obtain r1 s1 where t: "try_getPage fetch page query s = (r1, s1)"
    by (cases "try_getPage fetch page query s")
  show ?case
  proof (cases r1)
    case (Inl err)
    let ?s = "log (LogRetry err) (log (Wait 5000) s1)"
    from t Inl Suc.prems have "getPage fetch page query N ?s = (r, s')"
      by (simp add: getPage.simps [of _ _ _ "Suc N"])
    from Suc.IH [OF this] try_getPage_refs [OF t] Inl show ?thesis
      by (simp split: sum.splits)
  next
    case (Inr pkgs)
    with t Suc.prems try_getPage_refs [OF t] show ?thesis
      by (auto simp: getPage.simps [of _ _ _ "Suc N"])
  qed
qed

lemma getPackages_loop_frame:
  "files (snd (getPackages_loop fetch query i c packages s)) = files s \<and>
   newEmailsSet (snd (getPackages_loop fetch query i c packages s)) = newEmailsSet s \<and>
   allPackagesSet (snd (getPackages_loop fetch query i c packages s)) = allPackagesSet s \<and>
   write_rejected (snd (getPackages_loop fetch query i c packages s)) = write_rejected s"
proof (induction fetch query i c packages s rule: getPackages_loop.induct)
  case (1 fetch query i completed packages s)
  show ?case
  proof (cases "i < PAGES_PER_QUERY")
    case False
    then show ?thesis by (simp add: getPackages_loop.simps)
  next
    case True
    obtain r s' where g: "getPage fetch i query 2 s = (r, s')" by (cases "getPage fetch i query 2 s")
    with getPage_frame [of fetch i query 2 s]
    have f: "files s' = files s" "newEmailsSet s' = newEmailsSet s" "allPackagesSet s' = allPackagesSet s"
      "write_rejected s' = write_rejected s"
      by simp_all
    show ?thesis
    proof (cases r)
      case (Inl err)
      with True g f show ?thesis by (simp add: getPackages_loop.simps [of _ _ i])
    next
      case (Inr fetched)
      with True g f "1.IH" [OF True g [symmetric] Inr] show ?thesis
        by (simp add: getPackages_loop.simps [of _ _ i] log_def)
    qed
  qed
qed

lemma getPackages_loop_refs:
  "getPackages_loop fetch query i c packages s = (Inr pkgs, s') \<Longrightarrow>
   next_ref s \<le> next_ref s' \<and> map fst pkgs = map fst packages @ [next_ref s ..< next_ref s']"
proof (induction fetch query i c packages s rule: getPackages_loop.induct)
  case (1 fetch query i completed packages s)
  show ?case
  proof (cases "i < PAGES_PER_QUERY")
    case False
    with "1.prems" show ?thesis by (simp add: getPackages_loop.simps [of _ _ i])
  next
    case True
    obtain r s1 where g: "getPage fetch i query 2 s = (r, s1)" by (cases "getPage fetch i query 2 s")
    show ?thesis
    proof (cases r)
      case (Inl err)
      with True g "1.prems" show ?thesis by (simp add: getPackages_loop.simps [of _ _ i])
    next
      case (Inr fetched)
      let ?s = "log (Progress (completed + 1)) s1"
      from True g Inr "1.prems"
      have "getPackages_loop fetch query (i + 1) (completed + 1) (packages @ fetched) ?s = (Inr pkgs, s')"
        by (simp add: getPackages_loop.simps [of _ _ i])
      from "1.IH" [OF True g [symmetric] Inr this] getPage_refs [OF g] Inr
      have "next_ref s \<le> next_ref s1" "next_ref s1 \<le> next_ref s'"
        and "map fst pkgs = map fst packages @ [next_ref s ..< next_ref s1] @ [next_ref s1 ..< next_ref s']"
        by (simp_all add: log_def)
      then show ?thesis by (simp add: upt_split)
    qed
  qed
qed

subsection \<open>The files of a run\<close>


lemma getPackages_frame:
  "files (snd (getPackages fetch query s)) = files s \<and>
   newEmailsSet (snd (getPackages fetch query s)) = newEmailsSet s \<and>
   allPackagesSet (snd (getPackages fetch query s)) = allPackagesSet s \<and>
   write_rejected (snd (getPackages fetch query s)) = write_rejected s"
  using getPackages_loop_frame [of fetch query 0 0 "[]" "log (LogFetching query) s"]
  by (simp add: getPackages_def)

lemma getPackages_refs:
  "getPackages fetch query s = (Inr pkgs, s') \<Longrightarrow>
   next_ref s \<le> next_ref s' \<and> map fst pkgs = [next_ref s ..< next_ref s']"
  using getPackages_loop_refs [of fetch query 0 0 "[]" "log (LogFetching query) s" pkgs s']
  by (simp add: getPackages_def)

lemma fold_insert_fst: "fold (\<lambda>pkg S. insert (fst pkg) S) pkgs A = fst ` set pkgs \<union> A"
  by (induction pkgs arbitrary: A) auto

lemma add_packages_simps [simp]:
  "allPackagesSet (add_packages pkgs s) = allPackagesSet s \<union> fst ` set pkgs"
  "newEmailsSet (add_packages pkgs s) = newEmailsSet s" "files (add_packages pkgs s) = files s"
  "next_ref (add_packages pkgs s) = next_ref s" "attempts (add_packages pkgs s) = attempts s"
  "trace (add_packages pkgs s) = trace s" "write_rejected (add_packages pkgs s) = write_rejected s"
  by (simp_all add: add_packages_def fold_insert_fst Un_commute)

lemma writeFile_simps [simp]:
  "files (writeFile write file es s) = files s @ [(file, es)]"
  "newEmailsSet (writeFile write file es s) = newEmailsSet s"
  "allPackagesSet (writeFile write file es s) = allPackagesSet s"
  "next_ref (writeFile write file es s) = next_ref s"
  "attempts (writeFile write file es s) = attempts s"
  "trace (writeFile write file es s) = trace s"
  "write_rejected (writeFile write file es s)
     = (if write (length (files s)) file (file_data es) then write_rejected s else True)"
  by (simp_all add: writeFile_def)

lemma interrupted_simps [simp]:
  "files (interrupted query s) = files s" "newEmailsSet (interrupted query s) = newEmailsSet s"
  "allPackagesSet (interrupted query s) = allPackagesSet s"
  "next_ref (interrupted query s) = next_ref s"
  "write_rejected (interrupted query s) = write_rejected s"
  "trace (interrupted query s) = trace s @ [LogFetching query, Fetch (page_url 0 query)]"
  by (simp_all add: interrupted_def pageURL_Inr Let_def)

lemma add_emails_simps [simp]:
  "newEmailsSet (add_emails es s) = newEmailsSet s \<union> set es"
  "files (add_emails es s) = files s" "allPackagesSet (add_emails es s) = allPackagesSet s"
  "next_ref (add_emails es s) = next_ref s" "attempts (add_emails es s) = attempts s"
  "trace (add_emails es s) = trace s" "write_rejected (add_emails es s) = write_rejected s"
  by (simp_all add: add_emails_def fold_insert_set Un_commute)

text \<open>The two ways a query ends.\<close>

lemma process_query_cases:
  assumes "process_query fetch write sent query s = (r, s')"
  obtains (aborted) err where "r = Some err" "files s' = files s" "newEmailsSet s' = newEmailsSet s"
      "write_rejected s' = write_rejected s" "s' = snd (getPackages fetch query s)"
  | (written) packages s1 where "r = None" "getPackages fetch query s = (Inr packages, s1)"
      "files s' = files s @ [(query @ ''_new_emails.txt'', newEmails sent (newEmailsSet s) packages)]"
      "newEmailsSet s' = newEmailsSet s \<union> set (newEmails sent (newEmailsSet s) packages)"
      "allPackagesSet s' = allPackagesSet s \<union> fst ` set packages"
      "next_ref s' = next_ref s1" "attempts s' = attempts s1"
      "write_rejected s' =
         (if write (length (files s)) (query @ ''_new_emails.txt'')
               (file_data (newEmails sent (newEmailsSet s) packages))
          then write_rejected s else True)"
      "trace s' = trace s1"
proof -
  obtain g s1 where g: "getPackages fetch query s = (g, s1)" by (cases "getPackages fetch query s")
  with getPackages_frame [of fetch query s]
  have f: "files s1 = files s" "newEmailsSet s1 = newEmailsSet s" "allPackagesSet s1 = allPackagesSet s"
    "write_rejected s1 = write_rejected s"
    by simp_all
  show thesis
  proof (cases g)
    case (Inl err)
    with assms g have "r = Some err" "s' = s1" by (simp_all add: process_query_def)
    with f g show thesis by (intro aborted [of err]) simp_all
  next
    case (Inr packages)
    let ?es = "newEmails sent (newEmailsSet s) packages"
    from Inr assms g f have "r = None"
      and "s' = add_emails ?es (writeFile write (query @ ''_new_emails.txt'') ?es (add_packages packages s1))"
      by (simp_all add: process_query_def Let_def)
    with f g Inr show thesis by (intro written [of packages s1]) simp_all
  qed
qed

text \<open>The three ways the loop goes on from a query.\<close>

lemma query_loop_cases:
  assumes "query_loop fetch write sent (q # qs) s = (r, s')"
  obtains (cut) "write_rejected s" "r = Some UnhandledRejection" "s' = interrupted q s"
  | (failed) err where "\<not> write_rejected s" "process_query fetch write sent q s = (Some err, s')"
      "r = Some err"
  | (next_query) s1 where "\<not> write_rejected s" "process_query fetch write sent q s = (None, s1)"
      "query_loop fetch write sent qs s1 = (r, s')"
proof (cases "write_rejected s")
  case True
  with assms show thesis by (intro cut) simp_all
next
  case False
  obtain r1 s1 where p: "process_query fetch write sent q s = (r1, s1)"
    by (cases "process_query fetch write sent q s")
  show thesis
  proof (cases r1)
    case None
    with assms False p show thesis by (intro next_query [of s1]) simp_all
  next
    case (Some err)
    with assms False p show thesis by (intro failed [of err]) simp_all
  qed
qed

lemma getEmailsFromPackage_nonempty: "e \<in> set (getEmailsFromPackage pkg) \<Longrightarrow> e \<noteq> []"
  by (auto simp: getEmailsFromPackage_def truthy_def Let_def
      split: option.splits maintainers_field.splits if_splits)

lemma set_newEmails:
  "set (newEmails sent new packages)
     = (\<Union>pkg \<in> set packages. set (getEmailsFromPackage (snd pkg))) - sent - new"
  by (simp add: newEmails_def set_deduplicate flatMap_def)

lemma written_ok_process_query:
  assumes "process_query fetch write sent query s = (r, s')" and "written_ok sent s"
  shows "written_ok sent s'"
  using assms(1)
proof (cases rule: process_query_cases)
  case (aborted err)
  with assms(2) show ?thesis by (simp add: written_ok_def)
next
  case (written packages s1)
  let ?es = "newEmails sent (newEmailsSet s) packages"
  have es: "set ?es \<inter> sent = {}" "set ?es \<inter> newEmailsSet s = {}" "[] \<notin> set ?es"
    using getEmailsFromPackage_nonempty by (auto simp: set_newEmails)
  have old: "\<And>file. file \<in> set (files s) \<Longrightarrow>
      set (snd file) \<subseteq> newEmailsSet s \<and> set (snd file) \<inter> sent = {} \<and> [] \<notin> set (snd file)"
    using assms(2) by (simp add: written_ok_def)
  have 1: "\<forall>file \<in> set (files s').
      set (snd file) \<subseteq> newEmailsSet s' \<and> set (snd file) \<inter> sent = {} \<and> [] \<notin> set (snd file)"
    using written(3,4) es old by fastforce
  have 2: "set (snd (files s' ! i)) \<inter> set (snd (files s' ! j)) = {}"
    if "i < j" "j < length (files s')" for i j
  proof (cases "j < length (files s)")
    case True
    with that assms(2) written(3) show ?thesis
      by (simp add: written_ok_def nth_append)
  next
    case False
    with that written(3) have j: "j = length (files s)" and i: "i < length (files s)" by simp_all
    from i have "files s ! i \<in> set (files s)" by simp
    from old [OF this] es(2) i j written(3) show ?thesis
      by (auto simp: nth_append)
  qed
  from 1 2 show ?thesis by (simp add: written_ok_def)
qed

lemma written_ok_interrupted [simp]: "written_ok sent (interrupted q s) = written_ok sent s"
  by (simp add: written_ok_def)

lemma written_ok_query_loop:
  "query_loop fetch write sent queries s = (r, s') \<Longrightarrow> written_ok sent s \<Longrightarrow> written_ok sent s'"
proof (induction queries arbitrary: s)
  case Nil
  then show ?case by simp
next
  case (Cons q qs)
  from Cons.prems(1) show ?case
  proof (cases rule: query_loop_cases)
    case cut
    with Cons.prems(2) show ?thesis by simp
  next
    case (failed err)
    from written_ok_process_query [OF failed(2) Cons.prems(2)] show ?thesis .
  next
    case (next_query s1)
    from Cons.IH [OF next_query(3) written_ok_process_query [OF next_query(2) Cons.prems(2)]]
    show ?thesis .
  qed
qed

lemma files_main:
  "files (snd (main fetch write queries_txt sent_txt))
     = files (snd (query_loop fetch write (set (split_LINE_PATTERN sent_txt))
         (split_LINE_PATTERN queries_txt)
         (log (LogSentCount (length (split_LINE_PATTERN sent_txt))) initial_state)))"
  by (simp add: main_def Let_def split: prod.splits option.splits)

lemma written_ok_log [simp]: "written_ok sent (log ev s) = written_ok sent s"
  by (simp add: written_ok_def)

lemma written_ok_main:
  "written_ok (set (split_LINE_PATTERN sent_txt)) (snd (main fetch write queries_txt sent_txt))"
proof -
  let ?s0 = "log (LogSentCount (length (split_LINE_PATTERN sent_txt))) initial_state"
  let ?sent = "set (split_LINE_PATTERN sent_txt)"
  obtain r s where run: "query_loop fetch write ?sent (split_LINE_PATTERN queries_txt) ?s0 = (r, s)"
    by (cases "query_loop fetch write ?sent (split_LINE_PATTERN queries_txt) ?s0")
  have "written_ok ?sent ?s0" by (simp add: written_ok_def initial_state_def)
  from written_ok_query_loop [OF run this] have "written_ok ?sent s" .
  with run show ?thesis
    by (cases r) (simp_all add: main_def Let_def)
qed

subsection \<open>A registry that always answers\<close>

lemma getPage_registry:
  "0 < N \<Longrightarrow>
   getPage (registry body) page query N s =
     (Inr (zip [next_ref s ..< next_ref s + length (body (page_url page query))]
             (body (page_url page query))),
      s\<lparr>attempts := attempts s + 1,
        trace := trace s @ [Fetch (page_url page query), Wait 800],
        next_ref := next_ref s + length (body (page_url page query))\<rparr>)"
  by (cases N) (simp_all add: getPage.simps [of _ _ _ "Suc _"] try_getPage_succeeds registry_def)

lemma getPackages_loop_registry:
  "\<exists>pkgs s'. getPackages_loop (registry body) query i c packages s = (Inr pkgs, s') \<and>
     map snd pkgs
       = map snd packages @ concat (map (\<lambda>j. body (page_url j query)) [i..<PAGES_PER_QUERY]) \<and>
     attempts s' = attempts s + (PAGES_PER_QUERY - i)"
proof (induction "registry body" query i c packages s rule: getPackages_loop.induct)
  case (1 query i completed packages s)
  show ?case
  proof (cases "i < PAGES_PER_QUERY")
    case False
    then show ?thesis by (simp add: getPackages_loop.simps [of _ _ i])
  next
    case True
    let ?b = "body (page_url i query)"
    let ?f = "zip [next_ref s ..< next_ref s + length ?b] ?b"
    let ?s1 = "s\<lparr>attempts := attempts s + 1,
        trace := trace s @ [Fetch (page_url i query), Wait 800],
        next_ref := next_ref s + length ?b\<rparr>"
    have g: "getPage (registry body) i query 2 s = (Inr ?f, ?s1)"
      by (simp add: getPage_registry)
    from "1.hyps" [OF True g [symmetric] refl]
    obtain pkgs s' where
      l: "getPackages_loop (registry body) query (i + 1) (completed + 1) (packages @ ?f)
            (log (Progress (completed + 1)) ?s1) = (Inr pkgs, s')"
      and m: "map snd pkgs = map snd (packages @ ?f)
                @ concat (map (\<lambda>j. body (page_url j query)) [i + 1..<PAGES_PER_QUERY])"
      and a: "attempts s' = attempts (log (Progress (completed + 1)) ?s1) + (PAGES_PER_QUERY - (i + 1))"
      by blast
    from True have u: "[i..<PAGES_PER_QUERY] = i # [i + 1..<PAGES_PER_QUERY]"
      by (simp add: upt_conv_Cons)
    from True g l m a show ?thesis
      by (simp add: getPackages_loop.simps [of _ _ i] u)
  qed
qed

lemma getPackages_registry:
  "\<exists>pkgs s'. getPackages (registry body) query s = (Inr pkgs, s') \<and>
     map snd pkgs = query_records body query \<and> attempts s' = attempts s + PAGES_PER_QUERY"
  using getPackages_loop_registry [of body query 0 0 "[]" "log (LogFetching query) s"]
  by (simp add: getPackages_def query_records_def)

lemma newEmails_map_snd:
  "newEmails sent new packages = deduplicate sent new (flatMap getEmailsFromPackage (map snd packages))"
  by (simp add: newEmails_def flatMap_def comp_def)

lemma process_query_registry:
  "\<exists>s'. process_query (registry body) write sent query s = (None, s') \<and>
     files s' = files s @ [(query @ ''_new_emails.txt'',
        deduplicate sent (newEmailsSet s) (flatMap getEmailsFromPackage (query_records body query)))] \<and>
     newEmailsSet s' = newEmailsSet s
        \<union> set (deduplicate sent (newEmailsSet s) (flatMap getEmailsFromPackage (query_records body query))) \<and>
     attempts s' = attempts s + PAGES_PER_QUERY \<and>
     write_rejected s' =
       (if write (length (files s)) (query @ ''_new_emails.txt'')
             (file_data (deduplicate sent (newEmailsSet s)
                (flatMap getEmailsFromPackage (query_records body query))))
        then write_rejected s else True)"
proof -
  from getPackages_registry [of body query s] obtain pkgs s0 where
    g: "getPackages (registry body) query s = (Inr pkgs, s0)" and
    m: "map snd pkgs = query_records body query" and a0: "attempts s0 = attempts s + PAGES_PER_QUERY"
    by blast
  from getPackages_frame [of "registry body" query s] g
  have f: "files s0 = files s" "newEmailsSet s0 = newEmailsSet s" "write_rejected s0 = write_rejected s"
    by simp_all
  show ?thesis
    by (simp add: process_query_def g Let_def newEmails_map_snd m a0 f)
qed

lemma query_loop_registry:
  "\<not> write_rejected s \<Longrightarrow>
   \<exists>s'. query_loop (registry body) writes_all sent queries s = (None, s') \<and>
     files s' = files s @ registry_files body sent (newEmailsSet s) queries \<and>
     attempts s' = attempts s + PAGES_PER_QUERY * length queries \<and> \<not> write_rejected s'"
proof (induction queries arbitrary: s)
  case Nil
  then show ?case by simp
next
  case (Cons q qs)
  let ?es = "deduplicate sent (newEmailsSet s) (flatMap getEmailsFromPackage (query_records body q))"
  from process_query_registry [of body writes_all sent q s] Cons.prems obtain s1 where
    p: "process_query (registry body) writes_all sent q s = (None, s1)" and
    f: "files s1 = files s @ [(q @ ''_new_emails.txt'', ?es)]" and
    n: "newEmailsSet s1 = newEmailsSet s \<union> set ?es" and
    a: "attempts s1 = attempts s + PAGES_PER_QUERY" and
    w: "\<not> write_rejected s1"
    by (auto simp: writes_all_def)
  from Cons.IH [OF w] obtain s' where
    l: "query_loop (registry body) writes_all sent qs s1 = (None, s')" and
    f': "files s' = files s1 @ registry_files body sent (newEmailsSet s1) qs" and
    a': "attempts s' = attempts s1 + PAGES_PER_QUERY * length qs" and
    w': "\<not> write_rejected s'"
    by blast
  have "query_loop (registry body) writes_all sent (q # qs) s = (None, s')"
    using p l Cons.prems by simp
  moreover have "files s' = files s @ registry_files body sent (newEmailsSet s) (q # qs)"
    using f f' n by (simp add: Let_def)
  moreover have "attempts s' = attempts s + PAGES_PER_QUERY * length (q # qs)"
    using a a' by simp
  ultimately show ?case using w' by blast
qed

lemma main_registry:
  "fst (main (registry body) writes_all queries_txt sent_txt) = None \<and>
   files (snd (main (registry body) writes_all queries_txt sent_txt))
     = registry_files body (set (split_LINE_PATTERN sent_txt)) {} (split_LINE_PATTERN queries_txt) \<and>
   attempts (snd (main (registry body) writes_all queries_txt sent_txt))
     = PAGES_PER_QUERY * length (split_LINE_PATTERN queries_txt)"
proof -
  let ?s0 = "log (LogSentCount (length (split_LINE_PATTERN sent_txt))) initial_state"
  have "\<not> write_rejected ?s0" by (simp add: initial_state_def)
  from query_loop_registry [OF this, of body "set (split_LINE_PATTERN sent_txt)" "split_LINE_PATTERN queries_txt"]
  obtain s' where
    "query_loop (registry body) writes_all (set (split_LINE_PATTERN sent_txt)) (split_LINE_PATTERN queries_txt) ?s0
       = (None, s')"
    "files s' = files ?s0
       @ registry_files body (set (split_LINE_PATTERN sent_txt)) (newEmailsSet ?s0) (split_LINE_PATTERN queries_txt)"
    "attempts s' = attempts ?s0 + PAGES_PER_QUERY * length (split_LINE_PATTERN queries_txt)"
    "\<not> write_rejected s'"
    by blast
  then show ?thesis
    by (simp add: main_def Let_def initial_state_def)
qed

subsection \<open>Output files\<close>


lemma query_loop_names:
  "query_loop fetch write sent queries s = (r, s') \<Longrightarrow>
   \<exists>k\<le>length queries.
     map fst (files s') = map fst (files s) @ map (\<lambda>q. q @ ''_new_emails.txt'') (take k queries)"
proof (induction queries arbitrary: s)
  case Nil
  then show ?case by simp
next
  case (Cons q qs)
  from Cons.prems show ?case
  proof (cases rule: query_loop_cases)
    case cut
    then have "map fst (files s') = map fst (files s)
        @ map (\<lambda>q. q @ ''_new_emails.txt'') (take 0 (q # qs))" by simp
    then show ?thesis by blast
  next
    case (failed err)
    from failed(2) have "files s' = files s" by (cases rule: process_query_cases) simp_all
    then have "map fst (files s') = map fst (files s)
        @ map (\<lambda>q. q @ ''_new_emails.txt'') (take 0 (q # qs))" by simp
    then show ?thesis by blast
  next
    case (next_query s1)
    from next_query(2) have f: "map fst (files s1) = map fst (files s) @ [q @ ''_new_emails.txt'']"
      by (cases rule: process_query_cases) simp_all
    from Cons.IH [OF next_query(3)] obtain k where k: "k \<le> length qs"
      and "map fst (files s') = map fst (files s1) @ map (\<lambda>q. q @ ''_new_emails.txt'') (take k qs)"
      by blast
    with f have "map fst (files s') = map fst (files s)
        @ map (\<lambda>q. q @ ''_new_emails.txt'') (take (Suc k) (q # qs))" by simp
    moreover from k have "Suc k \<le> length (q # qs)" by simp
    ultimately show ?thesis by blast
  qed
qed

lemma main_names:
  "\<exists>k\<le>length (split_LINE_PATTERN queries_txt).
     map fst (files (snd (main fetch write queries_txt sent_txt)))
       = map (\<lambda>q. q @ ''_new_emails.txt'') (take k (split_LINE_PATTERN queries_txt))"
proof -
  let ?s0 = "log (LogSentCount (length (split_LINE_PATTERN sent_txt))) initial_state"
  let ?sent = "set (split_LINE_PATTERN sent_txt)"
  obtain r s where run: "query_loop fetch write ?sent (split_LINE_PATTERN queries_txt) ?s0 = (r, s)"
    by (cases "query_loop fetch write ?sent (split_LINE_PATTERN queries_txt) ?s0")
  from query_loop_names [OF run] have
    "\<exists>k\<le>length (split_LINE_PATTERN queries_txt).
       map fst (files s) = map (\<lambda>q. q @ ''_new_emails.txt'') (take k (split_LINE_PATTERN queries_txt))"
    by (simp add: initial_state_def)
  moreover have "files (snd (main fetch write queries_txt sent_txt)) = files s"
    using run by (simp add: files_main)
  ultimately show ?thesis by simp
qed

lemma file_name:
  assumes "i < length (files (snd (main fetch write queries_txt sent_txt)))"
  shows "i < length (split_LINE_PATTERN queries_txt) \<and>
    fst (files (snd (main fetch write queries_txt sent_txt)) ! i)
      = split_LINE_PATTERN queries_txt ! i @ ''_new_emails.txt''"
proof -
  let ?fs = "files (snd (main fetch write queries_txt sent_txt))"
  let ?qs = "split_LINE_PATTERN queries_txt"
  from main_names [of queries_txt fetch "write" sent_txt] obtain k where k: "k \<le> length ?qs"
    and m: "map fst ?fs = map (\<lambda>q. q @ ''_new_emails.txt'') (take k ?qs)" by blast
  from m have "length ?fs = length (take k ?qs)" by (metis length_map)
  with k assms have i: "i < k" by simp
  from assms have "fst (?fs ! i) = map fst ?fs ! i" by simp
  also have "\<dots> = ?qs ! i @ ''_new_emails.txt''" using m i k by simp
  finally show ?thesis using i k by simp
qed

lemma sample_split_queries: "split_LINE_PATTERN sample_queries_txt = [''foo'', ''bar'']"
  by (simp add: split_LINE_PATTERN_def sample_queries_txt_def LF_def CR_def)

lemma sample_split_sent: "split_LINE_PATTERN sample_sent_emails_txt = [''a@x.com'', []]"
  by (simp add: split_LINE_PATTERN_def sample_sent_emails_txt_def LF_def CR_def)

lemma sample_records_foo:
  "query_records sample_registry ''foo''
     = [sample_package ''alpha'' (Some ''a@x.com'') [Some ''c@x.com'', Some [], None, Some ''c@x.com'']]"
  by (simp add: query_records_def PAGES_PER_QUERY_def sample_registry_def page_url_def
      show_nat.simps upt_conv_Cons)

lemma sample_records_bar:
  "query_records sample_registry ''bar''
     = [sample_package ''alpha'' (Some ''a@x.com'') [Some ''c@x.com'', Some [], None, Some ''c@x.com''],
        sample_package ''beta'' (Some ''c@x.com'') [Some ''d@x.com'']]"
  by (simp add: query_records_def PAGES_PER_QUERY_def sample_registry_def page_url_def
      show_nat.simps upt_conv_Cons)

lemma sample_emails:
  "getEmailsFromPackage
     (sample_package ''alpha'' (Some ''a@x.com'') [Some ''c@x.com'', Some [], None, Some ''c@x.com''])
     = [''a@x.com'', ''c@x.com'', ''c@x.com'']"
  "getEmailsFromPackage (sample_package ''beta'' (Some ''c@x.com'') [Some ''d@x.com''])
     = [''c@x.com'', ''d@x.com'']"
  by (simp_all add: getEmailsFromPackage_def sample_package_def truthy_def)

text \<open>
  The run of the two queries \<open>foo\<close> and \<open>bar\<close> against the sample registry, with
  \<open>a@x.com\<close> already sent: \<open>c@x.com\<close> goes to the file of \<open>foo\<close> only.
\<close>

lemma sample_files:
  "files (snd (main (registry sample_registry) writes_all sample_queries_txt sample_sent_emails_txt))
     = [(''foo_new_emails.txt'', [''c@x.com'']), (''bar_new_emails.txt'', [''d@x.com''])]"
  by (simp add: main_registry sample_split_queries sample_split_sent sample_records_foo
      sample_records_bar sample_emails flatMap_def deduplicate_def filter_indexed_def)

text \<open>
  C1. In every run, whether it completes or a page fetch ends it, the list of emails
  written to the output file of any query holds no email of the set of sent emails that
  was loaded at startup from \<open>sent_emails.txt\<close>.
\<close>

theorem output_excludes_sent:
  "file \<in> set (files (snd (main fetch write queries_txt sent_emails_txt))) \<Longrightarrow>
   e \<in> set (snd file) \<Longrightarrow> e \<notin> set (split_LINE_PATTERN sent_emails_txt)"
  using written_ok_main [of sent_emails_txt fetch "write" queries_txt]
  by (auto simp: written_ok_def)

theorem output_excludes_sent_witness:
  "(''foo_new_emails.txt'', [''c@x.com''])
     \<in> set (files (snd (main (registry sample_registry) writes_all sample_queries_txt sample_sent_emails_txt))) \<and>
   ''c@x.com'' \<in> set (snd (''foo_new_emails.txt'', [''c@x.com''])) \<and>
   ''a@x.com'' \<in> set (split_LINE_PATTERN sample_sent_emails_txt) \<and>
   ''c@x.com'' \<notin> set (split_LINE_PATTERN sample_sent_emails_txt)"
  using output_excludes_sent [of "(''foo_new_emails.txt'', [''c@x.com''])" "registry sample_registry"
      writes_all
      sample_queries_txt sample_sent_emails_txt "''c@x.com''"]
  by (simp add: sample_files sample_split_sent)

text \<open>
  C2. In every run, when a query is processed before another one (the \<open>i\<close>-th and the
  \<open>j\<close>-th line of \<open>queries.txt\<close>, \<open>i < j\<close>, both with a file written), no email is in
  both the list written to the file of the first and the list written to the file of
  the second: what a query retains joins the running set before the next query, and
  the Deduplicator drops what is in that set.
\<close>

theorem outputs_disjoint:
  "i < j \<Longrightarrow> j < length (files (snd (main fetch write queries_txt sent_emails_txt))) \<Longrightarrow>
   fst (files (snd (main fetch write queries_txt sent_emails_txt)) ! i)
     = split_LINE_PATTERN queries_txt ! i @ ''_new_emails.txt'' \<and>
   fst (files (snd (main fetch write queries_txt sent_emails_txt)) ! j)
     = split_LINE_PATTERN queries_txt ! j @ ''_new_emails.txt'' \<and>
   set (snd (files (snd (main fetch write queries_txt sent_emails_txt)) ! i))
     \<inter> set (snd (files (snd (main fetch write queries_txt sent_emails_txt)) ! j)) = {}"
  using written_ok_main [of sent_emails_txt fetch "write" queries_txt]
    file_name [of i fetch "write" queries_txt sent_emails_txt]
    file_name [of j fetch "write" queries_txt sent_emails_txt]
  by (simp add: written_ok_def)

theorem outputs_disjoint_witness:
  "(0::nat) < 1 \<and>
   1 < length (files (snd (main (registry sample_registry) writes_all sample_queries_txt sample_sent_emails_txt))) \<and>
   files (snd (main (registry sample_registry) writes_all sample_queries_txt sample_sent_emails_txt)) ! 0
     = (''foo_new_emails.txt'', [''c@x.com'']) \<and>
   files (snd (main (registry sample_registry) writes_all sample_queries_txt sample_sent_emails_txt)) ! 1
     = (''bar_new_emails.txt'', [''d@x.com'']) \<and>
   set (snd (files (snd (main (registry sample_registry) writes_all sample_queries_txt sample_sent_emails_txt)) ! 0))
     \<inter> set (snd (files (snd (main (registry sample_registry) writes_all sample_queries_txt sample_sent_emails_txt)) ! 1))
     = {}"
  using outputs_disjoint [of 0 1 "registry sample_registry" writes_all sample_queries_txt sample_sent_emails_txt]
  by (simp add: sample_files)

subsection \<open>The lines of an output file\<close>

lemma split_acc_line:
  "LF \<notin> set e \<Longrightarrow> CR \<notin> set e \<Longrightarrow> split_acc cur e = [cur @ e]"
proof (induction e arbitrary: cur)
  case Nil
  show ?case by simp
next
  case (Cons c e)
  show ?case
  proof (cases e)
    case Nil
    with Cons.prems show ?thesis by simp
  next
    case (Cons d cs)
    with Cons.prems Cons.IH [of "cur @ [c]"] show ?thesis by auto
  qed
qed

lemma split_acc_break:
  "LF \<notin> set e \<Longrightarrow> CR \<notin> set e \<Longrightarrow> split_acc cur (e @ LF # r) = (cur @ e) # split_acc [] r"
proof (induction e arbitrary: cur)
  case Nil
  show ?case by (cases r) simp_all
next
  case (Cons c e)
  obtain d cs where t: "e @ LF # r = d # cs" by (cases "e @ LF # r") simp_all
  have "split_acc cur ((c # e) @ LF # r) = split_acc cur (c # d # cs)" using t by simp
  also have "\<dots> = split_acc (cur @ [c]) (d # cs)" using Cons.prems by auto
  also have "\<dots> = (cur @ c # e) # split_acc [] r"
    using Cons.IH [of "cur @ [c]"] Cons.prems t by simp
  finally show ?case by simp
qed

lemma split_join:
  "es \<noteq> [] \<Longrightarrow> (\<And>e. e \<in> set es \<Longrightarrow> LF \<notin> set e \<and> CR \<notin> set e) \<Longrightarrow>
   split_LINE_PATTERN (file_data es) = es"
proof (induction es rule: join.induct [of _ "[LF]"])
  case (1 sep)
  then show ?case by simp
next
  case (2 sep x)
  then show ?case by (simp add: file_data_def split_LINE_PATTERN_def split_acc_line)
next
  case (3 sep x y ys)
  from "3.prems"(2) [of x] have x: "LF \<notin> set x" "CR \<notin> set x" by simp_all
  have "split_LINE_PATTERN (file_data (y # ys)) = y # ys"
    using "3.IH" "3.prems"(2) by simp
  then show ?case
    using split_acc_break [OF x, of "[]" "join [LF] (y # ys)"]
    by (simp add: file_data_def split_LINE_PATTERN_def)
qed


lemma sample_records_baz: "query_records sample_registry ''baz'' = []"
  by (simp add: query_records_def PAGES_PER_QUERY_def sample_registry_def page_url_def
      show_nat.simps upt_conv_Cons)

lemma sample_records_nl:
  "query_records sample_registry_nl ''foo''
     = [sample_package ''gamma'' (Some (''x@x.com'' @ [LF, LF] @ ''a@x.com'')) []]"
  by (simp add: query_records_def PAGES_PER_QUERY_def sample_registry_nl_def page_url_def
      show_nat.simps upt_conv_Cons)

lemma sample_files_baz:
  "files (snd (main (registry sample_registry) writes_all ''baz'' sample_sent_emails_txt))
     = [(''baz_new_emails.txt'', [])]"
  by (simp add: main_registry sample_split_sent sample_records_baz flatMap_def deduplicate_def
      filter_indexed_def split_LINE_PATTERN_def LF_def CR_def)

lemma sample_files_nl:
  "files (snd (main (registry sample_registry_nl) writes_all ''foo'' sample_sent_emails_txt))
     = [(''foo_new_emails.txt'', [''x@x.com'' @ [LF, LF] @ ''a@x.com''])]"
proof -
  have "split_LINE_PATTERN ''foo'' = [''foo'']"
    by (simp add: split_LINE_PATTERN_def LF_def CR_def)
  moreover have "getEmailsFromPackage (sample_package ''gamma'' (Some (''x@x.com'' @ [LF, LF] @ ''a@x.com'')) [])
      = [''x@x.com'' @ [LF, LF] @ ''a@x.com'']"
    by (simp add: getEmailsFromPackage_def sample_package_def truthy_def)
  ultimately show ?thesis
    by (simp add: main_registry sample_split_sent sample_records_nl flatMap_def deduplicate_def
        filter_indexed_def LF_def)
qed

text \<open>
  C10, as the claim states it, fails for the lines of the files. A query that retains no
  email writes the empty data, which is one empty line; and an email that holds two line
  feeds, itself not empty, puts an empty line between its two halves.
\<close>

theorem written_lines_counterexample:
  "files (snd (main (registry sample_registry) writes_all ''baz'' sample_sent_emails_txt))
     = [(''baz_new_emails.txt'', [])] \<and>
   split_LINE_PATTERN (file_data []) = [[]] \<and>
   files (snd (main (registry sample_registry_nl) writes_all ''foo'' sample_sent_emails_txt))
     = [(''foo_new_emails.txt'', [''x@x.com'' @ [LF, LF] @ ''a@x.com''])] \<and>
   split_LINE_PATTERN (file_data [''x@x.com'' @ [LF, LF] @ ''a@x.com''])
     = [''x@x.com'', [], ''a@x.com'']"
  by (simp add: sample_files_baz sample_files_nl)
    (simp add: file_data_def split_LINE_PATTERN_def LF_def CR_def)

text \<open>
  C10, amended. Every email the extractor returns is a non-empty string, and so is every
  email of every list whose join is written to an output file, also when an empty line
  of \<open>sent_emails.txt\<close> has put the empty string into the set of sent emails. When the
  list written to a file is not empty and none of its emails holds a line feed or a
  carriage return, the lines of the file are these emails, so none of them is empty.
\<close>

theorem emails_nonempty:
  "(e \<in> set (getEmailsFromPackage pkg) \<longrightarrow> e \<noteq> []) \<and>
   (file \<in> set (files (snd (main fetch write queries_txt sent_emails_txt))) \<and> e' \<in> set (snd file)
      \<longrightarrow> e' \<noteq> []) \<and>
   (file \<in> set (files (snd (main fetch write queries_txt sent_emails_txt))) \<and> snd file \<noteq> [] \<and>
    (\<forall>e \<in> set (snd file). LF \<notin> set e \<and> CR \<notin> set e)
      \<longrightarrow> split_LINE_PATTERN (file_data (snd file)) = snd file \<and>
          [] \<notin> set (split_LINE_PATTERN (file_data (snd file))))"
proof (intro conjI impI)
  assume "e \<in> set (getEmailsFromPackage pkg)"
  then show "e \<noteq> []" by (rule getEmailsFromPackage_nonempty)
next
  assume "file \<in> set (files (snd (main fetch write queries_txt sent_emails_txt))) \<and> e' \<in> set (snd file)"
  with written_ok_main [of sent_emails_txt fetch "write" queries_txt]
  show "e' \<noteq> []" by (auto simp: written_ok_def)
next
  assume a: "file \<in> set (files (snd (main fetch write queries_txt sent_emails_txt))) \<and> snd file \<noteq> [] \<and>
    (\<forall>e \<in> set (snd file). LF \<notin> set e \<and> CR \<notin> set e)"
  then show l: "split_LINE_PATTERN (file_data (snd file)) = snd file"
    by (intro split_join) auto
  from a written_ok_main [of sent_emails_txt fetch "write" queries_txt]
  have "[] \<notin> set (snd file)" by (auto simp: written_ok_def)
  with l show "[] \<notin> set (split_LINE_PATTERN (file_data (snd file)))" by simp
qed

theorem emails_nonempty_witness:
  "[] \<in> set (split_LINE_PATTERN sample_sent_emails_txt) \<and>
   ''c@x.com'' \<in> set (getEmailsFromPackage
      (sample_package ''alpha'' (Some ''a@x.com'') [Some ''c@x.com'', Some [], None, Some ''c@x.com''])) \<and>
   ''c@x.com'' \<noteq> [] \<and>
   (''bar_new_emails.txt'', [''d@x.com''])
     \<in> set (files (snd (main (registry sample_registry) writes_all sample_queries_txt sample_sent_emails_txt))) \<and>
   ''d@x.com'' \<in> set (snd (''bar_new_emails.txt'', [''d@x.com''])) \<and>
   ''d@x.com'' \<noteq> [] \<and>
   snd (''bar_new_emails.txt'', [''d@x.com'']) \<noteq> [] \<and>
   LF \<notin> set ''d@x.com'' \<and> CR \<notin> set ''d@x.com'' \<and>
   split_LINE_PATTERN (file_data (snd (''bar_new_emails.txt'', [''d@x.com''])))
     = snd (''bar_new_emails.txt'', [''d@x.com'']) \<and>
   [] \<notin> set (split_LINE_PATTERN (file_data (snd (''bar_new_emails.txt'', [''d@x.com'']))))"
  using emails_nonempty [of "''c@x.com''"
      "sample_package ''alpha'' (Some ''a@x.com'') [Some ''c@x.com'', Some [], None, Some ''c@x.com'']"
      "(''bar_new_emails.txt'', [''d@x.com''])" "registry sample_registry" writes_all
      sample_queries_txt sample_sent_emails_txt "''d@x.com''"]
  by (simp add: sample_files sample_split_sent sample_emails LF_def CR_def)

subsection \<open>Page walker\<close>

lemma getPackages_prefix:
  "i \<le> PAGES_PER_QUERY \<Longrightarrow>
   (\<And>j. j < i \<Longrightarrow> \<exists>pkgs. page_result fetch query s j = Inr pkgs) \<Longrightarrow>
   getPackages fetch query s =
     getPackages_loop fetch query i i
       (concat (map (\<lambda>j. packages_of (page_result fetch query s j)) [0..<i]))
       (state_before fetch query s i)"
proof (induction i)
  case 0
  show ?case by (simp add: getPackages_def)
next
  case (Suc i)
  from Suc.prems have lt: "i < PAGES_PER_QUERY" by simp
  from Suc.prems(2) [of i] obtain pkgs where r: "page_result fetch query s i = Inr pkgs" by auto
  let ?s = "state_before fetch query s i"
  from r have g: "getPage fetch i query 2 ?s = (Inr pkgs, snd (getPage fetch i query 2 ?s))"
    by (simp add: page_result_def prod_eq_iff)
  have "getPackages fetch query s =
     getPackages_loop fetch query i i
       (concat (map (\<lambda>j. packages_of (page_result fetch query s j)) [0..<i])) ?s"
    using Suc.IH Suc.prems by simp
  also have "\<dots> = getPackages_loop fetch query (Suc i) (Suc i)
       (concat (map (\<lambda>j. packages_of (page_result fetch query s j)) [0..<i]) @ pkgs)
       (log (Progress (Suc i)) (snd (getPage fetch i query 2 ?s)))"
    using lt by (subst getPackages_loop.simps, subst g) simp
  finally show ?case using r by (simp add: packages_of_def)
qed

text \<open>
  C7. For every query the page walker calls the retrying fetch for the pages 0 to
  \<open>PAGES_PER_QUERY - 1\<close> (40) one after the other, each call starting in the state the
  call before it left. When every page is fetched, it returns the packages of all pages,
  appended in this order. When the fetch of a page raises its fatal error, the walker
  raises that error and ends in the state that fetch left: no later page is requested.
\<close>

theorem getPackages_walk:
  "((\<forall>i<PAGES_PER_QUERY. \<exists>pkgs. page_result fetch query s i = Inr pkgs) \<longrightarrow>
      getPackages fetch query s =
        (Inr (concat (map (\<lambda>i. packages_of (page_result fetch query s i)) [0..<PAGES_PER_QUERY])),
         state_before fetch query s PAGES_PER_QUERY)) \<and>
   (i < PAGES_PER_QUERY \<and> (\<forall>j<i. \<exists>pkgs. page_result fetch query s j = Inr pkgs) \<and>
    page_result fetch query s i = Inl err \<longrightarrow>
      err = RetriesOver \<and>
      getPackages fetch query s =
        (Inl RetriesOver, snd (getPage fetch i query 2 (state_before fetch query s i))))"
proof (intro conjI impI)
  assume "\<forall>i<PAGES_PER_QUERY. \<exists>pkgs. page_result fetch query s i = Inr pkgs"
  with getPackages_prefix [of PAGES_PER_QUERY fetch query s]
  show "getPackages fetch query s =
        (Inr (concat (map (\<lambda>i. packages_of (page_result fetch query s i)) [0..<PAGES_PER_QUERY])),
         state_before fetch query s PAGES_PER_QUERY)"
    by (simp add: getPackages_loop.simps [of _ _ PAGES_PER_QUERY])
next
  assume a: "i < PAGES_PER_QUERY \<and> (\<forall>j<i. \<exists>pkgs. page_result fetch query s j = Inr pkgs) \<and>
    page_result fetch query s i = Inl err"
  let ?s = "state_before fetch query s i"
  from a have g: "getPage fetch i query 2 ?s = (Inl err, snd (getPage fetch i query 2 ?s))"
    by (simp add: page_result_def prod_eq_iff)
  from getPage_refs [OF g] show e: "err = RetriesOver" by simp
  from a getPackages_prefix [of i fetch query s]
  have "getPackages fetch query s =
     getPackages_loop fetch query i i
       (concat (map (\<lambda>j. packages_of (page_result fetch query s j)) [0..<i])) ?s"
    by simp
  also have "\<dots> = (Inl err, snd (getPage fetch i query 2 ?s))"
    using a by (subst getPackages_loop.simps, subst g) simp
  finally show "getPackages fetch query s =
        (Inl RetriesOver, snd (getPage fetch i query 2 (state_before fetch query s i)))"
    using e by simp
qed

lemma page_result_registry:
  "\<exists>pkgs. page_result (registry body) query s i = Inr pkgs"
  by (simp add: page_result_def getPage_registry)

lemma sample_walk_records:
  "map snd (packages_of (fst (getPackages (registry sample_registry) ''foo'' initial_state)))
     = [sample_package ''alpha'' (Some ''a@x.com'') [Some ''c@x.com'', Some [], None, Some ''c@x.com'']]"
  using getPackages_registry [of sample_registry "''foo''" initial_state]
  by (auto simp: packages_of_def sample_records_foo)

lemma sample_abort:
  "page_result (answers_then_fails 1) ''foo'' initial_state 0 = Inr [] \<and>
   page_result (answers_then_fails 1) ''foo'' initial_state 1 = Inl RetriesOver \<and>
   attempts (snd (getPage (answers_then_fails 1) 1 ''foo'' 2
                   (state_before (answers_then_fails 1) ''foo'' initial_state 1))) = 3"
  by (simp add: page_result_def getPage.simps try_getPage_def pageURL_Inr answers_then_fails_def
      initial_state_def log_def)

theorem getPackages_walk_witness:
  "getPackages (registry sample_registry) ''foo'' initial_state =
     (Inr (concat (map (\<lambda>i. packages_of (page_result (registry sample_registry) ''foo'' initial_state i))
                    [0..<PAGES_PER_QUERY])),
      state_before (registry sample_registry) ''foo'' initial_state PAGES_PER_QUERY) \<and>
   map snd (packages_of (fst (getPackages (registry sample_registry) ''foo'' initial_state)))
     = [sample_package ''alpha'' (Some ''a@x.com'') [Some ''c@x.com'', Some [], None, Some ''c@x.com'']] \<and>
   (1::nat) < PAGES_PER_QUERY \<and>
   page_result (answers_then_fails 1) ''foo'' initial_state 0 = Inr [] \<and>
   page_result (answers_then_fails 1) ''foo'' initial_state 1 = Inl RetriesOver \<and>
   fst (getPackages (answers_then_fails 1) ''foo'' initial_state) = Inl RetriesOver \<and>
   attempts (snd (getPackages (answers_then_fails 1) ''foo'' initial_state)) = 3"
  using getPackages_walk [of "registry sample_registry" "''foo''" initial_state 0 RetriesOver]
    getPackages_walk [of "answers_then_fails 1" "''foo''" initial_state 1 RetriesOver]
    page_result_registry [of sample_registry "''foo''" initial_state]
    sample_walk_records sample_abort
  by (simp add: PAGES_PER_QUERY_def)

subsection \<open>The count of unique packages\<close>

lemma upt_set_union: "a \<le> b \<Longrightarrow> {..<a} \<union> set [a..<b] = {..<(b::nat)}"
  by auto

lemma process_query_refs:
  assumes "process_query fetch write sent query s = (None, s')" and "allPackagesSet s = {..<next_ref s}"
  shows "allPackagesSet s' = {..<next_ref s'}"
  using assms(1)
proof (cases rule: process_query_cases)
  case (aborted err)
  then show ?thesis by simp
next
  case (written packages s1)
  from getPackages_refs [OF written(2)]
  have "next_ref s \<le> next_ref s1" and "fst ` set packages = set [next_ref s ..< next_ref s1]"
    by (simp_all add: set_map [symmetric] del: set_map set_upt)
  with written(5,6) assms(2) show ?thesis
    by (simp add: upt_set_union del: set_upt)
qed

lemma query_loop_refs:
  "query_loop fetch write sent queries s = (None, s') \<Longrightarrow> allPackagesSet s = {..<next_ref s} \<Longrightarrow>
   allPackagesSet s' = {..<next_ref s'}"
proof (induction queries arbitrary: s)
  case Nil
  then show ?case by simp
next
  case (Cons q qs)
  from Cons.prems(1) show ?case
  proof (cases rule: query_loop_cases)
    case cut
    then show ?thesis by simp
  next
    case (failed err)
    then show ?thesis by simp
  next
    case (next_query s1)
    from process_query_refs [OF next_query(2) Cons.prems(2)] Cons.IH [OF next_query(3)]
    show ?thesis by simp
  qed
qed

text \<open>
  In a run that completes, the last line reports as unique packages the number of package
  objects decoded in the run: no two of them are ever the same object.
\<close>

lemma main_summary:
  assumes "main fetch write queries_txt sent_txt = (None, s)"
  shows "last (trace s) = LogSummary (card (newEmailsSet s)) (length (split_LINE_PATTERN queries_txt))
           (next_ref s)"
proof -
  let ?s0 = "log (LogSentCount (length (split_LINE_PATTERN sent_txt))) initial_state"
  let ?sent = "set (split_LINE_PATTERN sent_txt)"
  obtain r s1 where run: "query_loop fetch write ?sent (split_LINE_PATTERN queries_txt) ?s0 = (r, s1)"
    by (cases "query_loop fetch write ?sent (split_LINE_PATTERN queries_txt) ?s0")
  with assms have r: "r = None"
    and s: "s = log (LogSummary (card (newEmailsSet s1)) (length (split_LINE_PATTERN queries_txt))
                  (card (allPackagesSet s1))) s1"
    by (cases r; simp add: main_def Let_def split: if_splits)+
  have "allPackagesSet ?s0 = {..<next_ref ?s0}" by (simp add: initial_state_def)
  from query_loop_refs [OF run [unfolded r] this] have "card (allPackagesSet s1) = next_ref s1" by simp
  with s show ?thesis by simp
qed

lemma process_query_emails:
  assumes "process_query fetch write sent query s = (r, s')"
    and "newEmailsSet s = (\<Union>file\<in>set (files s). set (snd file))"
  shows "newEmailsSet s' = (\<Union>file\<in>set (files s'). set (snd file))"
  using assms(1)
proof (cases rule: process_query_cases)
  case (aborted err)
  with assms(2) show ?thesis by simp
next
  case (written packages s1)
  with assms(2) show ?thesis by (simp add: Un_commute)
qed

lemma query_loop_emails:
  "query_loop fetch write sent queries s = (r, s') \<Longrightarrow>
   newEmailsSet s = (\<Union>file\<in>set (files s). set (snd file)) \<Longrightarrow>
   newEmailsSet s' = (\<Union>file\<in>set (files s'). set (snd file))"
proof (induction queries arbitrary: s)
  case Nil
  then show ?case by simp
next
  case (Cons q qs)
  from Cons.prems(1) show ?case
  proof (cases rule: query_loop_cases)
    case cut
    with Cons.prems(2) show ?thesis by simp
  next
    case (failed err)
    from process_query_emails [OF failed(2) Cons.prems(2)] show ?thesis .
  next
    case (next_query s1)
    from Cons.IH [OF next_query(3) process_query_emails [OF next_query(2) Cons.prems(2)]]
    show ?thesis .
  qed
qed

lemma main_emails:
  "newEmailsSet (snd (main fetch write queries_txt sent_txt))
     = (\<Union>file\<in>set (files (snd (main fetch write queries_txt sent_txt))). set (snd file))"
proof -
  let ?s0 = "log (LogSentCount (length (split_LINE_PATTERN sent_txt))) initial_state"
  let ?sent = "set (split_LINE_PATTERN sent_txt)"
  obtain r s where run: "query_loop fetch write ?sent (split_LINE_PATTERN queries_txt) ?s0 = (r, s)"
    by (cases "query_loop fetch write ?sent (split_LINE_PATTERN queries_txt) ?s0")
  have "newEmailsSet ?s0 = (\<Union>file\<in>set (files ?s0). set (snd file))"
    by (simp add: initial_state_def)
  from query_loop_emails [OF run this] run show ?thesis
    by (cases r) (simp_all add: main_def Let_def)
qed

lemma getPackages_registry_refs:
  assumes "getPackages (registry body) query s = (r, s')"
  shows "next_ref s' = next_ref s + length (query_records body query)"
proof -
  from getPackages_registry [of body query s] assms obtain pkgs where
    r: "r = Inr pkgs" and m: "map snd pkgs = query_records body query" by auto
  from getPackages_refs [OF assms [unfolded r]]
  have le: "next_ref s \<le> next_ref s'" and f: "map fst pkgs = [next_ref s ..< next_ref s']" by simp_all
  from f have "length pkgs = next_ref s' - next_ref s" by (metis length_map length_upt)
  moreover from m have "length pkgs = length (query_records body query)" by (metis length_map)
  ultimately show ?thesis using le by simp
qed

lemma query_loop_registry_refs:
  "\<not> write_rejected s \<Longrightarrow>
   query_loop (registry body) writes_all sent queries s = (r, s') \<Longrightarrow>
   next_ref s' = next_ref s + length (concat (map (query_records body) queries))"
proof (induction queries arbitrary: s)
  case Nil
  then show ?case by simp
next
  case (Cons q qs)
  from process_query_registry [of body writes_all sent q s] Cons.prems(1) obtain s1 where
    p: "process_query (registry body) writes_all sent q s = (None, s1)" and w: "\<not> write_rejected s1"
    by (auto simp: writes_all_def)
  from p have n: "next_ref s1 = next_ref s + length (query_records body q)"
  proof (cases rule: process_query_cases)
    case (aborted err)
    then show ?thesis by simp
  next
    case (written packages s0)
    with getPackages_registry_refs [OF written(2)] show ?thesis by simp
  qed
  from p Cons.prems have "query_loop (registry body) writes_all sent qs s1 = (r, s')" by simp
  from Cons.IH [OF w this] n show ?case by simp
qed

lemma sample_summary:
  "last (trace (snd (main (registry sample_registry) writes_all sample_queries_txt sample_sent_emails_txt)))
     = LogSummary 2 2 3"
proof -
  let ?m = "main (registry sample_registry) writes_all sample_queries_txt sample_sent_emails_txt"
  let ?s0 = "log (LogSentCount (length (split_LINE_PATTERN sample_sent_emails_txt))) initial_state"
  have m: "?m = (None, snd ?m)"
    using main_registry [of sample_registry sample_queries_txt sample_sent_emails_txt]
    by (simp add: prod_eq_iff)
  obtain r s1 where run: "query_loop (registry sample_registry) writes_all
      (set (split_LINE_PATTERN sample_sent_emails_txt)) (split_LINE_PATTERN sample_queries_txt) ?s0 = (r, s1)"
    by (cases "query_loop (registry sample_registry) writes_all
      (set (split_LINE_PATTERN sample_sent_emails_txt)) (split_LINE_PATTERN sample_queries_txt) ?s0")
  have "\<not> write_rejected ?s0" by (simp add: initial_state_def)
  from query_loop_registry_refs [OF this run]
  have "next_ref s1 = 3"
    by (simp add: sample_split_queries sample_records_foo sample_records_bar initial_state_def)
  moreover have "next_ref (snd ?m) = next_ref s1"
    using run by (cases r) (simp_all add: main_def Let_def)
  ultimately have n: "next_ref (snd ?m) = 3" by simp
  have "newEmailsSet (snd ?m) = {''c@x.com'', ''d@x.com''}"
    by (simp add: main_emails sample_files insert_commute)
  then have c: "card (newEmailsSet (snd ?m)) = 2" by simp
  from main_summary [OF m] n c show ?thesis by (simp add: sample_split_queries)
qed

text \<open>
  C8 asks the count of unique packages in the last line to identify packages by name, so
  that two fetched records with the same name count once. The code adds the package
  objects themselves to \<open>allPackagesSet\<close>, and a set of objects compares by reference:
  in the sample run the registry returns three records, two of them named \<open>alpha\<close>,
  and the last line reports 3 unique packages where the names are 2.
\<close>

theorem unique_packages_counts_objects:
  "last (trace (snd (main (registry sample_registry) writes_all sample_queries_txt sample_sent_emails_txt)))
     = LogSummary 2 2 3 \<and>
   map name (query_records sample_registry ''foo'' @ query_records sample_registry ''bar'')
     = [''alpha'', ''alpha'', ''beta''] \<and>
   card (set (map name (query_records sample_registry ''foo'' @ query_records sample_registry ''bar''))) = 2"
  by (simp add: sample_summary sample_records_foo sample_records_bar sample_package_def)

subsection \<open>A failed write\<close>

lemma try_getPage_trace:
  "\<exists>evs. trace (snd (try_getPage fetch page query s)) = trace s @ Fetch (page_url page query) # evs"
  by (simp add: try_getPage_def pageURL_Inr Let_def
      split: fetch_outcome.splits response.splits option.splits)

lemma getPage_trace: "prefix (trace s) (trace (snd (getPage fetch page query N s)))"
proof (induction N arbitrary: s)
  case 0
  show ?case by (simp add: getPage.simps)
next
  case (Suc N)
  obtain r s1 where t: "try_getPage fetch page query s = (r, s1)"
    by (cases "try_getPage fetch page query s")
  with try_getPage_trace [of fetch page query s] have p: "prefix (trace s) (trace s1)"
    by (auto simp: prefix_def)
  show ?case
  proof (cases r)
    case (Inl err)
    let ?s = "log (LogRetry err) (log (Wait 5000) s1)"
    have "prefix (trace s1) (trace ?s)" by (simp add: prefix_def)
    with p Suc.IH [of ?s] have "prefix (trace s) (trace (snd (getPage fetch page query N ?s)))"
      by (meson prefix_order.trans)
    with t Inl show ?thesis by (simp add: getPage.simps [of _ _ _ "Suc N"])
  next
    case (Inr pkgs)
    with t p show ?thesis by (simp add: getPage.simps [of _ _ _ "Suc N"])
  qed
qed

lemma getPage_first:
  "0 < N \<Longrightarrow>
   \<exists>evs. trace (snd (getPage fetch page query N s)) = trace s @ Fetch (page_url page query) # evs"
proof -
  assume "0 < N"
  then obtain M where N: "N = Suc M" by (cases N) auto
  obtain r s1 where t: "try_getPage fetch page query s = (r, s1)"
    by (cases "try_getPage fetch page query s")
  with try_getPage_trace [of fetch page query s] obtain evs where
    e: "trace s1 = trace s @ Fetch (page_url page query) # evs" by auto
  show ?thesis
  proof (cases r)
    case (Inl err)
    let ?s = "log (LogRetry err) (log (Wait 5000) s1)"
    from getPage_trace [of ?s fetch page query M] obtain more where
      "trace (snd (getPage fetch page query M ?s)) = trace ?s @ more" by (auto simp: prefix_def)
    with t Inl e show ?thesis by (simp add: N getPage.simps [of _ _ _ "Suc M"])
  next
    case (Inr pkgs)
    with t e show ?thesis by (simp add: N getPage.simps [of _ _ _ "Suc M"])
  qed
qed

lemma getPackages_loop_trace:
  "prefix (trace s) (trace (snd (getPackages_loop fetch query i c packages s)))"
proof (induction fetch query i c packages s rule: getPackages_loop.induct)
  case (1 fetch query i completed packages s)
  show ?case
  proof (cases "i < PAGES_PER_QUERY")
    case False
    then show ?thesis by (simp add: getPackages_loop.simps [of _ _ i])
  next
    case True
    obtain r s1 where g: "getPage fetch i query 2 s = (r, s1)" by (cases "getPage fetch i query 2 s")
    with getPage_trace [of s fetch i query 2] have p: "prefix (trace s) (trace s1)" by simp
    show ?thesis
    proof (cases r)
      case (Inl err)
      with True g p show ?thesis by (simp add: getPackages_loop.simps [of _ _ i])
    next
      case (Inr fetched)
      let ?s = "log (Progress (completed + 1)) s1"
      have "prefix (trace s1) (trace ?s)" by (simp add: prefix_def)
      with p "1.IH" [OF True g [symmetric] Inr]
      have "prefix (trace s)
          (trace (snd (getPackages_loop fetch query (i + 1) (completed + 1) (packages @ fetched) ?s)))"
        by (meson prefix_order.trans)
      with True g Inr show ?thesis by (simp add: getPackages_loop.simps [of _ _ i])
    qed
  qed
qed

lemma getPackages_first:
  "\<exists>evs. trace (snd (getPackages fetch query s))
     = trace s @ LogFetching query # Fetch (page_url 0 query) # evs"
proof -
  let ?s0 = "log (LogFetching query) s"
  obtain r s1 where g: "getPage fetch 0 query 2 ?s0 = (r, s1)" by (cases "getPage fetch 0 query 2 ?s0")
  with getPage_first [of 2 fetch 0 query ?s0] obtain evs where
    e: "trace s1 = trace s @ LogFetching query # Fetch (page_url 0 query) # evs" by auto
  show ?thesis
  proof (cases r)
    case (Inl err)
    with g e show ?thesis
      by (simp add: getPackages_def getPackages_loop.simps [of _ _ 0] PAGES_PER_QUERY_def)
  next
    case (Inr fetched)
    let ?s = "log (Progress (0 + 1)) s1"
    from getPackages_loop_trace [of ?s fetch query "0 + 1" "0 + 1" "[] @ fetched"] obtain more where
      "trace (snd (getPackages_loop fetch query (0 + 1) (0 + 1) ([] @ fetched) ?s)) = trace ?s @ more"
      by (auto simp: prefix_def)
    with g e Inr show ?thesis
      by (simp add: getPackages_def getPackages_loop.simps [of _ _ 0] PAGES_PER_QUERY_def)
  qed
qed

lemma process_query_first:
  "\<exists>evs. trace (snd (process_query fetch write sent query s))
     = trace s @ LogFetching query # Fetch (page_url 0 query) # evs"
proof -
  obtain r s' where p: "process_query fetch write sent query s = (r, s')"
    by (cases "process_query fetch write sent query s")
  from p have "\<exists>evs. trace s' = trace s @ LogFetching query # Fetch (page_url 0 query) # evs"
    using getPackages_first [of fetch query s] by (cases rule: process_query_cases) auto
  with p show ?thesis by simp
qed

lemma query_loop_trace:
  "prefix (trace s) (trace (snd (query_loop fetch write sent queries s)))"
proof (induction queries arbitrary: s)
  case Nil
  show ?case by simp
next
  case (Cons q qs)
  obtain r s' where l: "query_loop fetch write sent (q # qs) s = (r, s')"
    by (cases "query_loop fetch write sent (q # qs) s")
  from l have "prefix (trace s) (trace s')"
  proof (cases rule: query_loop_cases)
    case cut
    then show ?thesis by (simp add: prefix_def)
  next
    case (failed err)
    with process_query_first [of fetch "write" sent q s] show ?thesis by (auto simp: prefix_def)
  next
    case (next_query s1)
    with process_query_first [of fetch "write" sent q s] have "prefix (trace s) (trace s1)"
      by (auto simp: prefix_def)
    with Cons.IH [of s1] next_query(3) show ?thesis by (auto dest: prefix_order.trans)
  qed
  with l show ?case by simp
qed

text \<open>A query does the same with a writer that never fails, but for the pending rejection.\<close>

lemma process_query_writes_all:
  assumes "process_query fetch write sent query s = (r, s')"
  shows "process_query fetch writes_all sent query s = (r, s'\<lparr>write_rejected := write_rejected s\<rparr>)"
proof -
  obtain g s1 where g: "getPackages fetch query s = (g, s1)" by (cases "getPackages fetch query s")
  with getPackages_frame [of fetch query s] have f: "write_rejected s1 = write_rejected s" by simp
  show ?thesis
  proof (cases g)
    case (Inl err)
    with assms g f show ?thesis by (auto simp: process_query_def)
  next
    case (Inr packages)
    with assms g f show ?thesis
      by (auto simp: process_query_def Let_def writeFile_def add_emails_def add_packages_def writes_all_def)
  qed
qed

lemma clear_rejected: "\<not> write_rejected s \<Longrightarrow> s\<lparr>write_rejected := False\<rparr> = s"
  by simp

lemma query_loop_writes_all:
  "\<not> write_rejected s \<Longrightarrow> query_loop fetch write sent queries s = (r, s') \<Longrightarrow>
   (r = None \<longrightarrow>
      query_loop fetch writes_all sent queries s = (None, s'\<lparr>write_rejected := False\<rparr>)) \<and>
   prefix (trace s') (trace (snd (query_loop fetch writes_all sent queries s)))"
proof (induction queries arbitrary: s)
  case Nil
  then show ?case by simp
next
  case (Cons q qs)
  from Cons.prems(2) show ?case
  proof (cases rule: query_loop_cases)
    case cut
    with Cons.prems(1) show ?thesis by simp
  next
    case (failed err)
    from process_query_writes_all [OF failed(2)] failed Cons.prems(1) show ?thesis by simp
  next
    case (next_query s1)
    from process_query_writes_all [OF next_query(2)] Cons.prems(1)
    have ok: "process_query fetch writes_all sent q s = (None, s1\<lparr>write_rejected := False\<rparr>)"
      by simp
    show ?thesis
    proof (cases "write_rejected s1")
      case False
      with ok have "process_query fetch writes_all sent q s = (None, s1)" by simp
      with Cons.IH [OF False next_query(3)] Cons.prems(1) show ?thesis by simp
    next
      case True
      show ?thesis
      proof (cases qs)
        case Nil
        with next_query(3) ok Cons.prems(1) show ?thesis by simp
      next
        case (Cons q' qs')
        let ?t = "s1\<lparr>write_rejected := False\<rparr>"
        from Cons True next_query(3) have r: "r = Some UnhandledRejection" and s': "s' = interrupted q' s1"
          by simp_all
        from process_query_first [of fetch writes_all sent q' ?t] obtain evs where
          e: "trace (snd (process_query fetch writes_all sent q' ?t))
                = trace s1 @ LogFetching q' # Fetch (page_url 0 q') # evs" by auto
        obtain r2 t2 where p2: "process_query fetch writes_all sent q' ?t = (r2, t2)"
          by (cases "process_query fetch writes_all sent q' ?t")
        with e s' have pre: "prefix (trace s') (trace t2)" by (simp add: prefix_def)
        have "prefix (trace t2) (trace (snd (query_loop fetch writes_all sent (q' # qs') ?t)))"
          using p2 query_loop_trace [of t2 fetch writes_all sent qs'] by (cases r2) simp_all
        with pre have "prefix (trace s') (trace (snd (query_loop fetch writes_all sent (q' # qs') ?t)))"
          by (meson prefix_order.trans)
        with ok Cons.prems(1) Cons r show ?thesis by simp
      qed
    qed
  qed
qed

lemma main_writes_all:
  "prefix (trace (snd (main fetch write queries_txt sent_txt)))
     (trace (snd (main fetch writes_all queries_txt sent_txt)))"
proof -
  let ?s0 = "log (LogSentCount (length (split_LINE_PATTERN sent_txt))) initial_state"
  let ?sent = "set (split_LINE_PATTERN sent_txt)"
  let ?qs = "split_LINE_PATTERN queries_txt"
  obtain r s where run: "query_loop fetch write ?sent ?qs ?s0 = (r, s)"
    by (cases "query_loop fetch write ?sent ?qs ?s0")
  obtain r2 t where run2: "query_loop fetch writes_all ?sent ?qs ?s0 = (r2, t)"
    by (cases "query_loop fetch writes_all ?sent ?qs ?s0")
  have n: "\<not> write_rejected ?s0" by (simp add: initial_state_def)
  from query_loop_writes_all [OF n run] run2
  have 1: "r = None \<longrightarrow> r2 = None \<and> t = s\<lparr>write_rejected := False\<rparr>"
    and 2: "prefix (trace s) (trace t)" by simp_all
  show ?thesis
  proof (cases r)
    case None
    with 1 run run2 show ?thesis by (simp add: main_def Let_def)
  next
    case (Some err)
    with 2 run run2 show ?thesis
      by (cases r2) (auto simp: main_def Let_def prefix_def)
  qed
qed

lemma write_log_ok_process_query:
  assumes "process_query fetch write sent query s = (r, s')"
    and "write_log_ok write s" and "\<not> write_rejected s"
  shows "write_log_ok write s' \<and> (r \<noteq> None \<longrightarrow> \<not> write_rejected s')"
  using assms(1)
proof (cases rule: process_query_cases)
  case (aborted err)
  with assms(2,3) show ?thesis by (simp add: write_log_ok_def)
next
  case (written packages s1)
  let ?f = "(query @ ''_new_emails.txt'', newEmails sent (newEmailsSet s) packages)"
  have old: "write k (fst (files s ! k)) (file_data (snd (files s ! k)))" if "k < length (files s)" for k
    using that assms(2,3) by (auto simp: write_log_ok_def)
  have "write_rejected s' \<and> Suc k = length (files s')"
    if k: "k < length (files s')" and w: "\<not> write k (fst (files s' ! k)) (file_data (snd (files s' ! k)))"
    for k
  proof (cases "k < length (files s)")
    case True
    with old [OF True] w written(3) show ?thesis by (simp add: nth_append)
  next
    case False
    with k written(3) have "k = length (files s)" by simp
    with w written(3,8) show ?thesis by (simp add: nth_append)
  qed
  with written(1) show ?thesis by (simp add: write_log_ok_def)
qed

lemma write_log_ok_query_loop:
  "query_loop fetch write sent queries s = (r, s') \<Longrightarrow> write_log_ok write s \<Longrightarrow>
   write_log_ok write s' \<and> (write_rejected s' \<and> r \<noteq> None \<longrightarrow> r = Some UnhandledRejection)"
proof (induction queries arbitrary: s)
  case Nil
  then show ?case by simp
next
  case (Cons q qs)
  from Cons.prems(1) show ?case
  proof (cases rule: query_loop_cases)
    case cut
    with Cons.prems(2) show ?thesis by (simp add: write_log_ok_def)
  next
    case (failed err)
    from write_log_ok_process_query [OF failed(2) Cons.prems(2) failed(1)] failed(3)
    show ?thesis by simp
  next
    case (next_query s1)
    from write_log_ok_process_query [OF next_query(2) Cons.prems(2) next_query(1)]
    have "write_log_ok write s1" by simp
    from Cons.IH [OF next_query(3) this] show ?thesis .
  qed
qed

lemma write_log_ok_main:
  "write_log_ok write (snd (main fetch write queries_txt sent_txt)) \<and>
   (write_rejected (snd (main fetch write queries_txt sent_txt)) \<longrightarrow>
      fst (main fetch write queries_txt sent_txt) = Some UnhandledRejection)"
proof -
  let ?s0 = "log (LogSentCount (length (split_LINE_PATTERN sent_txt))) initial_state"
  let ?sent = "set (split_LINE_PATTERN sent_txt)"
  obtain r s where run: "query_loop fetch write ?sent (split_LINE_PATTERN queries_txt) ?s0 = (r, s)"
    by (cases "query_loop fetch write ?sent (split_LINE_PATTERN queries_txt) ?s0")
  have "write_log_ok write ?s0" by (simp add: write_log_ok_def initial_state_def)
  from write_log_ok_query_loop [OF run this]
  have "write_log_ok write s" and "write_rejected s \<and> r \<noteq> None \<longrightarrow> r = Some UnhandledRejection"
    by simp_all
  with run show ?thesis
    by (cases r) (simp_all add: main_def Let_def write_log_ok_def)
qed


text \<open>The sample run when the first write fails.\<close>

lemma getPackages_registry_last:
  "last (trace (snd (getPackages (registry body) query s))) = Progress PAGES_PER_QUERY"
proof -
  have "\<And>j. j < PAGES_PER_QUERY \<Longrightarrow> \<exists>pkgs. page_result (registry body) query s j = Inr pkgs"
    by (rule page_result_registry)
  from getPackages_prefix [OF order_refl this]
  have "snd (getPackages (registry body) query s) = state_before (registry body) query s PAGES_PER_QUERY"
    by (simp add: getPackages_loop.simps [of _ _ PAGES_PER_QUERY])
  moreover have "PAGES_PER_QUERY = Suc (PAGES_PER_QUERY - 1)" by (simp add: PAGES_PER_QUERY_def)
  ultimately show ?thesis by (metis state_before.simps(2) log_simps(6) last_snoc)
qed

lemma sample_failed_run:
  "fst (main (registry sample_registry) fails_first_write sample_queries_txt sample_sent_emails_txt)
     = Some UnhandledRejection \<and>
   files (snd (main (registry sample_registry) fails_first_write sample_queries_txt sample_sent_emails_txt))
     = [(''foo_new_emails.txt'', [''c@x.com''])] \<and>
   take 3 (rev (trace (snd (main (registry sample_registry) fails_first_write sample_queries_txt
      sample_sent_emails_txt))))
     = [Fetch (page_url 0 ''bar''), LogFetching ''bar'', Progress PAGES_PER_QUERY]"
proof -
  let ?s0 = "log (LogSentCount (length (split_LINE_PATTERN sample_sent_emails_txt))) initial_state"
  let ?sent = "set (split_LINE_PATTERN sample_sent_emails_txt)"
  obtain r s1 where p: "process_query (registry sample_registry) fails_first_write ?sent ''foo'' ?s0 = (r, s1)"
    by (cases "process_query (registry sample_registry) fails_first_write ?sent ''foo'' ?s0")
  from process_query_registry [of sample_registry fails_first_write ?sent "''foo''" ?s0] p
  have r: "r = None" and f: "files s1 = [(''foo_new_emails.txt'', [''c@x.com''])]"
    and w: "write_rejected s1"
    by (auto simp: initial_state_def sample_split_sent sample_records_foo sample_emails flatMap_def
        deduplicate_def filter_indexed_def fails_first_write_def)
  from p r have "trace s1 = trace (snd (getPackages (registry sample_registry) ''foo'' ?s0))"
    by (cases rule: process_query_cases) simp_all
  with getPackages_registry_last [of sample_registry "''foo''" ?s0]
  have l: "last (trace s1) = Progress PAGES_PER_QUERY" by simp
  from getPackages_first [of "registry sample_registry" "''foo''" ?s0]
    \<open>trace s1 = trace (snd (getPackages (registry sample_registry) ''foo'' ?s0))\<close>
  have ne: "trace s1 \<noteq> []" by auto
  have m: "main (registry sample_registry) fails_first_write sample_queries_txt sample_sent_emails_txt
      = (Some UnhandledRejection, interrupted ''bar'' s1)"
    using p r w by (simp add: main_def Let_def sample_split_queries initial_state_def)
  have "take 3 (rev (trace (interrupted ''bar'' s1)))
      = [Fetch (page_url 0 ''bar''), LogFetching ''bar'', last (trace s1)]"
    using ne by (cases "trace s1" rule: rev_cases) simp_all
  with m f l show ?thesis by simp
qed



end
